theory Spec2Isabelle
  imports Complex_Main "HOL-Library.AList" "HOL-Library.Multiset"
begin

section \<open>A discrete-event simulator for networks of G/G/c/K queues\<close>

text \<open>
  The development embeds \<^verbatim>\<open>gerador.py\<close> and \<^verbatim>\<open>rede_filas.py\<close>.
  Python objects mutated in place become records passed along explicitly, dictionaries
  become association lists in insertion order, exceptions become the left summand of a
  sum type. Python floats are modelled as exact reals: rounding is outside the model, so
  a statement "approximately equal" of the floating-point program reads as an equality
  here.
\<close>

subsection \<open>Errors\<close>

datatype error = RuntimeError | OverflowError | IndexError | KeyError

subsection \<open>Events (\<^verbatim>\<open>class Event\<close>)\<close>

datatype event_kind = ARRIVAL | DEPARTURE

record event =
  time :: real
  seq :: int
  etype :: event_kind
  node_name :: string

text \<open>
  \<^verbatim>\<open>@dataclass(order=True)\<close> compares the tuples \<open>(time, seq, etype)\<close>
  lexicographically (\<open>node_name\<close> has \<^verbatim>\<open>compare=False\<close>); the strings
  satisfy \<^verbatim>\<open>"ARRIVAL" < "DEPARTURE"\<close>.
\<close>

definition event_less :: "event \<Rightarrow> event \<Rightarrow> bool" where
  "event_less a b \<longleftrightarrow>
     time a < time b \<or>
     (time a = time b \<and>
       (seq a < seq b \<or> (seq a = seq b \<and> etype a = ARRIVAL \<and> etype b = DEPARTURE)))"

text \<open>
  \<^verbatim>\<open>heapq\<close> is modelled by its contract: the list holds the pending events,
  \<open>heappush\<close> adds one and \<open>heappop\<close> removes the least one.
\<close>

definition heappush :: "event list \<Rightarrow> event \<Rightarrow> event list" where
  "heappush evs e = evs @ [e]"

fun least_event :: "event \<Rightarrow> event list \<Rightarrow> event" where
  "least_event m [] = m"
| "least_event m (e # es) = least_event (if event_less e m then e else m) es"

definition heappop :: "event list \<Rightarrow> error + (event \<times> event list)" where
  "heappop evs =
     (case evs of
        [] \<Rightarrow> Inl IndexError
      | e # es \<Rightarrow> (let m = least_event e es in Inr (m, remove1 m evs)))"

subsection \<open>Queue nodes (\<^verbatim>\<open>class Node\<close>)\<close>

text \<open>
  The fields \<^verbatim>\<open>c\<close>, \<^verbatim>\<open>k\<close> and \<^verbatim>\<open>n\<close> are \<open>node_c\<close>, \<open>node_k\<close>
  and \<open>node_n\<close>. A sampler closure made by \<^verbatim>\<open>_make_sampler(min_val, max_val)\<close>
  is the pair of its bounds; the generator it draws from is the simulator's. The field
  \<open>admitidos\<close> is a ghost counter of the successful admissions: \<open>admit\<close> writes it and
  nothing reads it.
\<close>

record node =
  name :: string
  node_c :: int
  node_k :: int
  service_sampler :: "real \<times> real"
  arrival_sampler :: "(real \<times> real) option"
  node_n :: int
  tempo_estado :: "real list"
  atendidos :: int
  perdas :: int
  admitidos :: int

text \<open>
  The constructor with \<^verbatim>\<open>__post_init__\<close>: \<^verbatim>\<open>range(self.k + 1)\<close> is
  empty when \<open>k + 1\<close> is not positive.
\<close>

definition Node :: "string \<Rightarrow> int \<Rightarrow> int \<Rightarrow> real \<times> real \<Rightarrow> (real \<times> real) option \<Rightarrow> node" where
  "Node nm cv kv ssam asam =
     \<lparr>name = nm, node_c = cv, node_k = kv, service_sampler = ssam, arrival_sampler = asam,
      node_n = 0, tempo_estado = replicate (nat (kv + 1)) 0, atendidos = 0, perdas = 0,
      admitidos = 0\<rparr>"

text \<open>
  \<^verbatim>\<open>admit\<close> and \<^verbatim>\<open>finish_service_one\<close> return the node as they leave it;
  \<open>admit\<close> also returns its result.
\<close>

definition admit :: "node \<Rightarrow> bool \<times> node" where
  "admit nd =
     (if node_n nd \<ge> node_k nd then (False, nd\<lparr>perdas := perdas nd + 1\<rparr>)
      else (True, nd\<lparr>node_n := node_n nd + 1, admitidos := admitidos nd + 1\<rparr>))"

definition finish_service_one :: "node \<Rightarrow> node" where
  "finish_service_one nd = nd\<lparr>node_n := node_n nd - 1, atendidos := atendidos nd + 1\<rparr>"

subsection \<open>The deviate source (\<^verbatim>\<open>LinearCongruentialGenerator\<close>, \<^verbatim>\<open>SimulationRNG\<close>)\<close>

definition lcg_a :: int where "lcg_a = 1664525"
definition lcg_c :: int where "lcg_c = 1013904223"
definition lcg_m :: int where "lcg_m = 2 ^ 32"

text \<open>
  \<^verbatim>\<open>next_random\<close> on the state of the generator: the value returned and the new
  state. Python's \<^verbatim>\<open>%\<close> with a positive modulus is \<open>mod\<close> on the integers.
\<close>

definition next_random :: "int \<Rightarrow> real \<times> int" where
  "next_random st = (let st' = (lcg_a * st + lcg_c) mod lcg_m in (real_of_int st' / real_of_int lcg_m, st'))"

text \<open>
  \<open>ListSource xs\<close> is the iterator over the replay list with \<open>xs\<close> still to come;
  \<open>LcgSource st\<close> is the generator in state \<open>st\<close>.
\<close>

datatype deviate_source = ListSource "real list" | LcgSource int

record simulation_rng =
  source :: deviate_source
  used :: int

text \<open>
  \<^verbatim>\<open>SimulationRNG.u\<close>. The counter is incremented before the source is asked, so
  the failing call counts too; the generator after the call is returned in both cases.
\<close>

definition rng_u :: "simulation_rng \<Rightarrow> (error + real) \<times> simulation_rng" where
  "rng_u r =
     (let r1 = r\<lparr>used := used r + 1\<rparr> in
      case source r1 of
        ListSource xs \<Rightarrow>
          (case xs of
             [] \<Rightarrow> (Inl RuntimeError, r1)
           | x # rest \<Rightarrow> (Inr x, r1\<lparr>source := ListSource rest\<rparr>))
      | LcgSource st \<Rightarrow>
          (case next_random st of (x, st') \<Rightarrow> (Inr x, r1\<lparr>source := LcgSource st'\<rparr>)))"

subsection \<open>The configuration dictionary\<close>

text \<open>
  A key that may be absent is an option. \<^verbatim>\<open>params.get('capacity', float('inf'))\<close>
  gives a number that is an integer or the float infinity, and \<^verbatim>\<open>int\<close> of the
  latter raises \<^verbatim>\<open>OverflowError\<close>.
\<close>

record queue_params =
  servers :: int
  capacity :: "int option"
  minService :: real
  maxService :: real
  minArrival :: "real option"
  maxArrival :: "real option"

record config =
  rndnumbers :: "real list option"
  seeds :: "int list option"
  seed :: "int option"
  queues :: "(string \<times> queue_params) list"
  network :: "(string \<times> string \<times> real) list"
  arrivals :: "(string \<times> int) list"

datatype pynum = PyInt int | PyInf

definition py_int :: "pynum \<Rightarrow> error + int" where
  "py_int v = (case v of PyInt i \<Rightarrow> Inr i | PyInf \<Rightarrow> Inl OverflowError)"

text \<open>
  \<^verbatim>\<open>SimulationRNG.__init__\<close>: the replay list when the key \<^verbatim>\<open>rndnumbers\<close> is
  present and the key \<^verbatim>\<open>seeds\<close> is not, else the generator seeded with
  \<^verbatim>\<open>config.get('seed', 1)\<close>.
\<close>

definition SimulationRNG :: "config \<Rightarrow> simulation_rng" where
  "SimulationRNG cfg =
     (if rndnumbers cfg \<noteq> None \<and> \<not> (seeds cfg \<noteq> None)
      then \<lparr>source = ListSource (the (rndnumbers cfg)), used = 0\<rparr>
      else \<lparr>source = LcgSource (case seed cfg of None \<Rightarrow> 1 | Some sd \<Rightarrow> sd), used = 0\<rparr>)"

subsection \<open>The simulator (\<^verbatim>\<open>class NetworkSimulator\<close>)\<close>

text \<open>The field \<^verbatim>\<open>self.time\<close> is \<open>sim_time\<close>.\<close>

record network_simulator =
  rng :: simulation_rng
  nodes :: "(string \<times> node) list"
  routing_table :: "(string \<times> (string \<times> real) list) list"
  total_arrivals_target :: int
  total_arrivals_count :: int
  sim_time :: real
  last_update_time :: real
  events :: "event list"
  seq_counter :: int

text \<open>
  The body of the first loop of \<^verbatim>\<open>_build_network\<close>, for one entry of
  \<^verbatim>\<open>config['queues']\<close>, and the loop, which stores each node under its name.
\<close>

definition build_node :: "string \<Rightarrow> queue_params \<Rightarrow> error + node" where
  "build_node nm p =
     (let service_sampler = (minService p, maxService p);
          arrival_sampler = (case (minArrival p, maxArrival p) of
                               (Some lo, Some hi) \<Rightarrow> Some (lo, hi)
                             | _ \<Rightarrow> None)
      in case py_int (case capacity p of None \<Rightarrow> PyInf | Some v \<Rightarrow> PyInt v) of
           Inl e \<Rightarrow> Inl e
         | Inr cap \<Rightarrow> Inr (Node nm (servers p) cap service_sampler arrival_sampler))"

fun build_nodes :: "(string \<times> queue_params) list \<Rightarrow> (string \<times> node) list \<Rightarrow> error + (string \<times> node) list" where
  "build_nodes [] acc = Inr acc"
| "build_nodes ((nm, p) # rest) acc =
     (case build_node nm p of
        Inl e \<Rightarrow> Inl e
      | Inr nd \<Rightarrow> build_nodes rest (AList.update nm nd acc))"

text \<open>
  The routing part of \<^verbatim>\<open>_build_network\<close>: the rules are grouped by source in the
  order of their first appearance (\<open>add_rule\<close> is the body of the loop that fills
  \<^verbatim>\<open>raw_routing\<close>), each group is sorted by probability (Python's sort is stable,
  as \<open>sort_key\<close> is) and turned into running sums that start at 0.
\<close>

fun add_rule :: "(string \<times> (string \<times> real) list) list \<Rightarrow> string \<times> string \<times> real \<Rightarrow> (string \<times> (string \<times> real) list) list" where
  "add_rule raw (src, tgt, prob) =
     (case map_of raw src of
        None \<Rightarrow> raw @ [(src, [(tgt, prob)])]
      | Some dests \<Rightarrow> AList.update src (dests @ [(tgt, prob)]) raw)"

fun cumulative :: "real \<Rightarrow> (string \<times> real) list \<Rightarrow> (string \<times> real) list" where
  "cumulative acc [] = []"
| "cumulative acc ((tgt, prob) # ds) = (tgt, acc + prob) # cumulative (acc + prob) ds"

definition build_routing :: "(string \<times> string \<times> real) list \<Rightarrow> (string \<times> (string \<times> real) list) list" where
  "build_routing rules =
     map (\<lambda>(src, dests). (src, cumulative 0 (sort_key snd dests))) (foldl add_rule [] rules)"

text \<open>
  \<^verbatim>\<open>NetworkSimulator.__init__\<close>: the generator, the network, the arrival target (the
  sum over \<^verbatim>\<open>config['arrivals']\<close>), then the clock, the event list and the
  sequence counter.
\<close>

definition NetworkSimulator :: "config \<Rightarrow> error + network_simulator" where
  "NetworkSimulator cfg =
     (case build_nodes (queues cfg) [] of
        Inl e \<Rightarrow> Inl e
      | Inr ns \<Rightarrow>
          Inr \<lparr>rng = SimulationRNG cfg, nodes = ns, routing_table = build_routing (network cfg),
               total_arrivals_target = sum_list (map snd (arrivals cfg)),
               total_arrivals_count = 0, sim_time = 0, last_update_time = 0, events = [],
               seq_counter = 0\<rparr>)"

text \<open>A sampler call: one deviate, scaled into the range.\<close>

definition sample :: "real \<times> real \<Rightarrow> network_simulator \<Rightarrow> error + (real \<times> network_simulator)" where
  "sample rg s =
     (case rng_u (rng s) of
        (Inl e, r') \<Rightarrow> Inl e
      | (Inr x, r') \<Rightarrow> Inr (fst rg + (snd rg - fst rg) * x, s\<lparr>rng := r'\<rparr>))"

definition schedule :: "real \<Rightarrow> event_kind \<Rightarrow> string \<Rightarrow> network_simulator \<Rightarrow> network_simulator" where
  "schedule t ty nm s =
     (let sc = seq_counter s + 1
      in s\<lparr>seq_counter := sc,
           events := heappush (events s) \<lparr>time = t, seq = sc, etype = ty, node_name = nm\<rparr>\<rparr>)"

text \<open>
  \<^verbatim>\<open>node.tempo_estado[node.n] += dt\<close>: a Python index below zero counts from the
  end, and an index outside \<open>[-len, len)\<close> raises \<^verbatim>\<open>IndexError\<close>.
\<close>

definition py_index :: "'a list \<Rightarrow> int \<Rightarrow> nat option" where
  "py_index xs i =
     (let len = int (length xs); j = (if i < 0 then len + i else i)
      in if 0 \<le> j \<and> j < len then Some (nat j) else None)"

definition add_time :: "real \<Rightarrow> node \<Rightarrow> error + node" where
  "add_time dt nd =
     (case py_index (tempo_estado nd) (node_n nd) of
        None \<Rightarrow> Inl IndexError
      | Some i \<Rightarrow> Inr (nd\<lparr>tempo_estado := (tempo_estado nd)[i := tempo_estado nd ! i + dt]\<rparr>))"

fun add_time_all :: "real \<Rightarrow> (string \<times> node) list \<Rightarrow> error + (string \<times> node) list" where
  "add_time_all dt [] = Inr []"
| "add_time_all dt ((nm, nd) # rest) =
     (case add_time dt nd of
        Inl e \<Rightarrow> Inl e
      | Inr nd' \<Rightarrow>
          (case add_time_all dt rest of Inl e \<Rightarrow> Inl e | Inr rest' \<Rightarrow> Inr ((nm, nd') # rest')))"

definition update_time_stats :: "real \<Rightarrow> network_simulator \<Rightarrow> error + network_simulator" where
  "update_time_stats t_new s =
     (let dt = t_new - last_update_time s
      in if dt > 0
         then (case add_time_all dt (nodes s) of
                 Inl e \<Rightarrow> Inl e
               | Inr ns \<Rightarrow> Inr (s\<lparr>nodes := ns, last_update_time := t_new\<rparr>))
         else Inr (s\<lparr>last_update_time := t_new\<rparr>))"

text \<open>The \<^verbatim>\<open>for\<close> loop of \<^verbatim>\<open>pick_destination\<close> over the cumulative table.\<close>

fun scan_rules :: "real \<Rightarrow> (string \<times> real) list \<Rightarrow> string option" where
  "scan_rules x [] = None"
| "scan_rules x ((tgt, cumulative_prob) # rules) =
     (if x < cumulative_prob then Some tgt else scan_rules x rules)"

definition pick_destination :: "string \<Rightarrow> network_simulator \<Rightarrow> error + (string option \<times> network_simulator)" where
  "pick_destination source_node_name s =
     (case map_of (routing_table s) source_node_name of
        None \<Rightarrow> Inr (None, s)
      | Some rules \<Rightarrow>
          if rules = [] then Inr (None, s)
          else (case rng_u (rng s) of
                  (Inl e, r') \<Rightarrow> Inl e
                | (Inr x, r') \<Rightarrow> Inr (scan_rules x rules, s\<lparr>rng := r'\<rparr>)))"

text \<open>
  \<^verbatim>\<open>service_time = fila.service_sampler()\<close> followed by
  \<^verbatim>\<open>self.schedule(self.time + service_time, DEPARTURE, fila.name)\<close>: the two lines
  stand three times in \<^verbatim>\<open>run\<close>.
\<close>

definition start_service :: "node \<Rightarrow> network_simulator \<Rightarrow> error + network_simulator" where
  "start_service fila s =
     (case sample (service_sampler fila) s of
        Inl e \<Rightarrow> Inl e
      | Inr (service_time, s') \<Rightarrow>
          Inr (schedule (sim_time s' + service_time) DEPARTURE (name fila) s'))"

text \<open>
  The block that \<^verbatim>\<open>run\<close> has twice, for the event's node and for the routing
  destination: \<^verbatim>\<open>if fila.admit(): if fila.n <= fila.c: ...\<close>. The node is the
  object stored under \<open>key\<close>, mutated in place.
\<close>

definition admit_and_start :: "string \<Rightarrow> network_simulator \<Rightarrow> error + network_simulator" where
  "admit_and_start key s =
     (case map_of (nodes s) key of
        None \<Rightarrow> Inl KeyError
      | Some fila \<Rightarrow>
          (case admit fila of
             (ok, fila') \<Rightarrow>
               (let s1 = s\<lparr>nodes := AList.update key fila' (nodes s)\<rparr>
                in if ok \<and> node_n fila' \<le> node_c fila' then start_service fila' s1 else Inr s1)))"

text \<open>
  The \<^verbatim>\<open>ARRIVAL\<close> branch. \<^verbatim>\<open>self.nodes[ev.node_name]\<close> raises
  \<^verbatim>\<open>KeyError\<close> for a name that is no node.
\<close>

definition on_arrival :: "string \<Rightarrow> network_simulator \<Rightarrow> error + network_simulator" where
  "on_arrival key s =
     (case map_of (nodes s) key of
        None \<Rightarrow> Inl KeyError
      | Some fila_origem \<Rightarrow>
          (let s1 = s\<lparr>total_arrivals_count := total_arrivals_count s + 1\<rparr>
           in case (case arrival_sampler fila_origem of
                      None \<Rightarrow> Inr s1
                    | Some rg \<Rightarrow>
                        (case sample rg s1 of
                           Inl e \<Rightarrow> Inl e
                         | Inr (next_ia, s2) \<Rightarrow>
                             Inr (schedule (sim_time s2 + next_ia) ARRIVAL (name fila_origem) s2))) of
                Inl e \<Rightarrow> Inl e
              | Inr s3 \<Rightarrow> admit_and_start key s3))"

text \<open>
  The routing part of the \<^verbatim>\<open>DEPARTURE\<close> branch. \<^verbatim>\<open>if dest_name:\<close> is
  false for \<^verbatim>\<open>None\<close> and for the empty string.
\<close>

definition route_customer :: "string \<Rightarrow> network_simulator \<Rightarrow> error + network_simulator" where
  "route_customer source_node_name s =
     (case pick_destination source_node_name s of
        Inl e \<Rightarrow> Inl e
      | Inr (dest_name, s') \<Rightarrow>
          (case dest_name of
             None \<Rightarrow> Inr s'
           | Some d \<Rightarrow> if d = [] then Inr s' else admit_and_start d s'))"

definition on_departure :: "string \<Rightarrow> network_simulator \<Rightarrow> error + network_simulator" where
  "on_departure key s =
     (case map_of (nodes s) key of
        None \<Rightarrow> Inl KeyError
      | Some fila_origem \<Rightarrow>
          (let fila' = finish_service_one fila_origem;
               s1 = s\<lparr>nodes := AList.update key fila' (nodes s)\<rparr>
           in case (if node_n fila' \<ge> node_c fila' then start_service fila' s1 else Inr s1) of
                Inl e \<Rightarrow> Inl e
              | Inr s2 \<Rightarrow> route_customer (name fila') s2))"

text \<open>One iteration of the \<^verbatim>\<open>while\<close> loop of \<^verbatim>\<open>run\<close>.\<close>

definition step :: "network_simulator \<Rightarrow> error + network_simulator" where
  "step s =
     (case heappop (events s) of
        Inl e \<Rightarrow> Inl e
      | Inr (ev, rest) \<Rightarrow>
          (case update_time_stats (time ev) (s\<lparr>events := rest\<rparr>) of
             Inl e \<Rightarrow> Inl e
           | Inr s1 \<Rightarrow>
               (let s2 = s1\<lparr>sim_time := time ev\<rparr>
                in case etype ev of
                     ARRIVAL \<Rightarrow> on_arrival (node_name ev) s2
                   | DEPARTURE \<Rightarrow> on_departure (node_name ev) s2)))"

definition loop_cond :: "network_simulator \<Rightarrow> bool" where
  "loop_cond s \<longleftrightarrow>
     events s \<noteq> [] \<and>
     (total_arrivals_target s = 0 \<or> total_arrivals_count s < total_arrivals_target s)"

text \<open>The first \<^verbatim>\<open>for\<close> loop of \<^verbatim>\<open>run\<close>, over \<^verbatim>\<open>self.nodes.items()\<close>.\<close>

fun first_arrivals :: "(string \<times> node) list \<Rightarrow> network_simulator \<Rightarrow> error + network_simulator" where
  "first_arrivals [] s = Inr s"
| "first_arrivals ((nm, nd) # rest) s =
     (case arrival_sampler nd of
        None \<Rightarrow> first_arrivals rest s
      | Some rg \<Rightarrow>
          (case sample rg s of
             Inl e \<Rightarrow> Inl e
           | Inr (first_arrival_time, s') \<Rightarrow>
               first_arrivals rest (schedule first_arrival_time ARRIVAL nm s')))"

text \<open>
  The \<^verbatim>\<open>while\<close> loop may run forever (no target and a self-sustaining arrival
  stream), so it takes fuel: \<open>None\<close> means the fuel ran out before the loop condition
  became false.
\<close>

primrec run_loop :: "nat \<Rightarrow> network_simulator \<Rightarrow> (error + network_simulator) option" where
  "run_loop 0 s = (if loop_cond s then None else Some (Inr s))"
| "run_loop (Suc fuel) s =
     (if loop_cond s
      then (case step s of Inl e \<Rightarrow> Some (Inl e) | Inr s' \<Rightarrow> run_loop fuel s')
      else Some (Inr s))"

text \<open>The state after exactly \<open>i\<close> iterations of the loop, when there is one.\<close>

primrec state_after :: "nat \<Rightarrow> network_simulator \<Rightarrow> network_simulator option" where
  "state_after 0 s = Some s"
| "state_after (Suc i) s =
     (if loop_cond s
      then (case step s of Inl e \<Rightarrow> None | Inr s' \<Rightarrow> state_after i s')
      else None)"

text \<open>The events the loop pops, in order, until it stops, fails or runs out of fuel.\<close>

primrec popped :: "nat \<Rightarrow> network_simulator \<Rightarrow> event list" where
  "popped 0 s = []"
| "popped (Suc fuel) s =
     (if loop_cond s
      then (case heappop (events s) of
              Inl e \<Rightarrow> []
            | Inr (ev, rest) \<Rightarrow> ev # (case step s of Inl e \<Rightarrow> [] | Inr s' \<Rightarrow> popped fuel s'))
      else [])"

subsection \<open>Results (\<^verbatim>\<open>_get_results\<close>)\<close>

record fila_result =
  servidores :: int
  capacidade :: int
  res_atendidos :: int
  res_perdas :: int
  res_tempo_estado :: "real list"
  prob_estado :: "real list"

record results =
  tempo_global :: real
  randoms_usados :: int
  chegadas_totais :: int
  filas :: "(string \<times> fila_result) list"

definition fila_of :: "node \<Rightarrow> fila_result" where
  "fila_of nd =
     (let total_time = sum_list (tempo_estado nd)
      in \<lparr>servidores = node_c nd, capacidade = node_k nd, res_atendidos = atendidos nd,
          res_perdas = perdas nd, res_tempo_estado = tempo_estado nd,
          prob_estado = map (\<lambda>t. if total_time > 0 then t / total_time else 0) (tempo_estado nd)\<rparr>)"

definition get_results :: "network_simulator \<Rightarrow> results" where
  "get_results s =
     \<lparr>tempo_global = sim_time s, randoms_usados = used (rng s),
      chegadas_totais = total_arrivals_count s,
      filas = map (\<lambda>(nm, nd). (nm, fila_of nd)) (nodes s)\<rparr>"

text \<open>
  \<^verbatim>\<open>run\<close>, up to the final statistics update; \<open>run\<close> then reads the results off.
\<close>

definition run_state :: "nat \<Rightarrow> network_simulator \<Rightarrow> (error + network_simulator) option" where
  "run_state fuel s =
     (case first_arrivals (nodes s) s of
        Inl e \<Rightarrow> Some (Inl e)
      | Inr s0 \<Rightarrow>
          (case run_loop fuel s0 of
             None \<Rightarrow> None
           | Some (Inl e) \<Rightarrow> Some (Inl e)
           | Some (Inr s1) \<Rightarrow> Some (update_time_stats (sim_time s1) s1)))"

definition run :: "nat \<Rightarrow> network_simulator \<Rightarrow> (error + results) option" where
  "run fuel s = map_option (map_sum id get_results) (run_state fuel s)"

text \<open>Construction followed by \<^verbatim>\<open>run\<close>, as \<^verbatim>\<open>run_sim.main\<close> does for one configuration.\<close>

definition simulate :: "nat \<Rightarrow> config \<Rightarrow> (error + results) option" where
  "simulate fuel cfg =
     (case NetworkSimulator cfg of Inl e \<Rightarrow> Some (Inl e) | Inr s \<Rightarrow> run fuel s)"

subsection \<open>Events of a run, from the configuration\<close>

text \<open>
  The events a run pops, in order, and the destination that a freshly constructed
  simulator picks for a source.
\<close>

definition event_sequence :: "nat \<Rightarrow> config \<Rightarrow> event list" where
  "event_sequence fuel cfg =
     (case NetworkSimulator cfg of
        Inl e \<Rightarrow> []
      | Inr s \<Rightarrow> (case first_arrivals (nodes s) s of Inl e \<Rightarrow> [] | Inr s0 \<Rightarrow> popped fuel s0))"

definition route_once :: "config \<Rightarrow> string \<Rightarrow> error + string option" where
  "route_once cfg src =
     (case NetworkSimulator cfg of
        Inl e \<Rightarrow> Inl e
      | Inr s \<Rightarrow> (case pick_destination src s of Inl e \<Rightarrow> Inl e | Inr (d, s') \<Rightarrow> Inr d))"

subsection \<open>The loop over a heap that arranges its events freely\<close>

text \<open>
  The results that \<^verbatim>\<open>run\<close> returns once the loop has stopped in a state: the
  final statistics update, then \<^verbatim>\<open>_get_results\<close>; and the same for the outcome
  of the loop, which may be the error of a failed iteration.
\<close>

definition final_results :: "network_simulator \<Rightarrow> error + results" where
  "final_results s = map_sum id get_results (update_time_stats (sim_time s) s)"

definition loop_results :: "error + network_simulator \<Rightarrow> error + results" where
  "loop_results res = (case res of Inl e \<Rightarrow> Inl e | Inr s \<Rightarrow> final_results s)"

text \<open>
  \<^verbatim>\<open>heapq\<close> keeps the pending events in an array of its own arrangement, which
  depends on the pushes and pops made so far; the list of \<open>heappush\<close> keeps them in
  the order of insertion. The relation below is the loop of \<^verbatim>\<open>run\<close> over a
  heap that may hold the pending events in any arrangement before each pop: it relates a
  state to the events popped from it on, in order, and to the results returned. The rules
  are the three ways an iteration goes: the loop condition is false, the iteration fails,
  the iteration succeeds and the loop goes on. \<open>arranged_run\<close> is construction followed
  by \<^verbatim>\<open>run\<close> over such a heap.
\<close>

inductive arranged_loop :: "network_simulator \<Rightarrow> event list \<Rightarrow> error + results \<Rightarrow> bool" where
  finished: "\<not> loop_cond s \<Longrightarrow> arranged_loop s [] (final_results s)"
| failed: "loop_cond s \<Longrightarrow> mset evs = mset (events s) \<Longrightarrow> heappop evs = Inr (ev, rest) \<Longrightarrow>
     step (s\<lparr>events := evs\<rparr>) = Inl e \<Longrightarrow> arranged_loop s [ev] (Inl e)"
| iterated: "loop_cond s \<Longrightarrow> mset evs = mset (events s) \<Longrightarrow> heappop evs = Inr (ev, rest) \<Longrightarrow>
     step (s\<lparr>events := evs\<rparr>) = Inr s' \<Longrightarrow> arranged_loop s' tr r \<Longrightarrow> arranged_loop s (ev # tr) r"

definition arranged_run :: "config \<Rightarrow> event list \<Rightarrow> error + results \<Rightarrow> bool" where
  "arranged_run cfg tr r =
     (case NetworkSimulator cfg of
        Inl e \<Rightarrow> tr = [] \<and> r = Inl e
      | Inr s \<Rightarrow>
          (case first_arrivals (nodes s) s of
             Inl e \<Rightarrow> tr = [] \<and> r = Inl e
           | Inr s0 \<Rightarrow> arranged_loop s0 tr r))"

subsection \<open>Properties of configurations and invariants of a run\<close>

text \<open>A property of every node of the simulator, and the conservation property of a node.\<close>

definition nodes_all :: "(node \<Rightarrow> bool) \<Rightarrow> network_simulator \<Rightarrow> bool" where
  "nodes_all P s \<longleftrightarrow> (\<forall>p\<in>set (nodes s). P (snd p))"

definition conserved :: "node \<Rightarrow> bool" where
  "conserved nd \<longleftrightarrow> admitidos nd = atendidos nd + node_n nd"

text \<open>
  Sampled durations are not negative when the bounds of every sampler are not negative
  and every deviate to come lies in the unit interval, as those of the algorithmic source
  do. Then the clock \<open>T\<close> is behind every pending event, the statistics are up to date
  with it, and the time-in-state vector of every node sums to it.
\<close>

definition unit_deviates :: "simulation_rng \<Rightarrow> bool" where
  "unit_deviates r =
     (case source r of
        ListSource xs \<Rightarrow> list_all (\<lambda>x. 0 \<le> x \<and> x \<le> 1) xs
      | LcgSource st \<Rightarrow> True)"

definition nonneg_sampler :: "real \<times> real \<Rightarrow> bool" where
  "nonneg_sampler rg \<longleftrightarrow> 0 \<le> fst rg \<and> 0 \<le> snd rg"

definition nonneg_node :: "node \<Rightarrow> bool" where
  "nonneg_node nd \<longleftrightarrow>
     nonneg_sampler (service_sampler nd) \<and>
     (case arrival_sampler nd of None \<Rightarrow> True | Some rg \<Rightarrow> nonneg_sampler rg)"

definition nonneg_ranges :: "config \<Rightarrow> bool" where
  "nonneg_ranges cfg =
     list_all (\<lambda>(nm, p). 0 \<le> minService p \<and> 0 \<le> maxService p \<and>
                 (case minArrival p of None \<Rightarrow> True | Some a \<Rightarrow> 0 \<le> a) \<and>
                 (case maxArrival p of None \<Rightarrow> True | Some a \<Rightarrow> 0 \<le> a))
       (queues cfg)"

definition timed_node :: "real \<Rightarrow> node \<Rightarrow> bool" where
  "timed_node T nd \<longleftrightarrow> sum_list (tempo_estado nd) = T \<and> nonneg_node nd"

definition clock_inv :: "real \<Rightarrow> network_simulator \<Rightarrow> bool" where
  "clock_inv T s \<longleftrightarrow>
     unit_deviates (rng s) \<and> list_all (\<lambda>e. T \<le> time e) (events s) \<and>
     sim_time s = T \<and> last_update_time s = T"

text \<open>
  The departures pending for a node, and the invariant that ties them to its occupancy:
  a node stored under \<open>key\<close> carries that name, has at least as many customers as
  departures pending (plus \<open>extra key\<close>, for a departure just popped), never more
  departures pending than servers, and at most \<open>k\<close> customers when \<open>k\<close> is not negative.
\<close>

definition pending :: "string \<Rightarrow> event list \<Rightarrow> int" where
  "pending key evs = int (length (filter (\<lambda>e. etype e = DEPARTURE \<and> node_name e = key) evs))"

definition occupied :: "int \<Rightarrow> node \<Rightarrow> bool" where
  "occupied p nd \<longleftrightarrow>
     p \<le> node_n nd \<and> p \<le> max 0 (node_c nd) \<and> (0 \<le> node_k nd \<longrightarrow> node_n nd \<le> node_k nd)"

definition capacity_inv :: "(string \<Rightarrow> int) \<Rightarrow> network_simulator \<Rightarrow> bool" where
  "capacity_inv extra s \<longleftrightarrow>
     (\<forall>key nd. map_of (nodes s) key = Some nd \<longrightarrow>
        name nd = key \<and> occupied (pending key (events s) + extra key) nd)"

text \<open>
  The budget of a replay source: the values used so far plus the values still to come.
  (The algorithmic source has no bound.)
\<close>

definition budget :: "simulation_rng \<Rightarrow> int option" where
  "budget r =
     (case source r of
        ListSource xs \<Rightarrow> Some (used r + int (length xs))
      | LcgSource st \<Rightarrow> None)"

text \<open>
  The invariant of the scheduler: the pending events carry pairwise distinct sequence
  numbers, none above the counter.
\<close>

definition seq_inv :: "network_simulator \<Rightarrow> bool" where
  "seq_inv s \<longleftrightarrow>
     distinct (map seq (events s)) \<and> list_all (\<lambda>e. seq e \<le> seq_counter s) (events s)"

text \<open>
  Two simulators that differ at most in the arrangement of their pending events.
\<close>

definition same_pending :: "network_simulator \<Rightarrow> network_simulator \<Rightarrow> bool" where
  "same_pending s s' \<longleftrightarrow> mset (events s') = mset (events s) \<and> s' = s\<lparr>events := events s'\<rparr>"

text \<open>
  The same generator, and the same simulator, with the values \<open>ys\<close> supplied after
  those of its replay sequence. (Nothing can be supplied to the algorithmic source.)
\<close>

definition resupply_rng :: "real list \<Rightarrow> simulation_rng \<Rightarrow> simulation_rng" where
  "resupply_rng ys r =
     (case source r of
        ListSource xs \<Rightarrow> r\<lparr>source := ListSource (xs @ ys)\<rparr>
      | LcgSource st \<Rightarrow> r)"

definition resupply :: "real list \<Rightarrow> network_simulator \<Rightarrow> network_simulator" where
  "resupply ys s = s\<lparr>rng := resupply_rng ys (rng s)\<rparr>"




subsection \<open>Example configurations\<close>

text \<open>
  The single-node scenario of the specification (\<open>c = 1\<close>, \<open>k = 1\<close>, arrival range
  \<open>[1, 1]\<close>, service range \<open>[0.5, 0.5]\<close>, a target of three external arrivals), with
  the replay sequence as parameter; the same with a seed beside the replay sequence,
  which \<open>SimulationRNG\<close> does not read.
\<close>

definition scenario :: "real list \<Rightarrow> config" where
  "scenario us =
     \<lparr>rndnumbers = Some us, seeds = None, seed = None,
      queues = [(''Q1'', \<lparr>servers = 1, capacity = Some 1, minService = 1/2, maxService = 1/2,
                          minArrival = Some 1, maxArrival = Some 1\<rparr>)],
      network = [], arrivals = [(''Q1'', 3)]\<rparr>"

definition seeded_scenario :: config where
  "seeded_scenario = (scenario [0, 0, 0, 0, 0, 0, 0])\<lparr>seed := Some 42\<rparr>"

text \<open>
  The scenario on the algorithmic source, as \<^verbatim>\<open>run_sim.main\<close> runs it for the
  seed 7 of a list of seeds.
\<close>

definition lcg_scenario :: "int list \<Rightarrow> config" where
  "lcg_scenario sds = (scenario [])\<lparr>rndnumbers := None, seeds := Some sds, seed := Some 7\<rparr>"

text \<open>
  The run of the scenario with seven zeros: the events it pops, its states as
  constructed, as the loop starts, after three iterations and at the end, and its
  results.
\<close>

definition scenario_events :: "event list" where
  "scenario_events =
     [\<lparr>time = 1, seq = 1, etype = ARRIVAL, node_name = ''Q1''\<rparr>,
      \<lparr>time = 3 / 2, seq = 3, etype = DEPARTURE, node_name = ''Q1''\<rparr>,
      \<lparr>time = 2, seq = 2, etype = ARRIVAL, node_name = ''Q1''\<rparr>,
      \<lparr>time = 5 / 2, seq = 5, etype = DEPARTURE, node_name = ''Q1''\<rparr>,
      \<lparr>time = 3, seq = 4, etype = ARRIVAL, node_name = ''Q1''\<rparr>]"

definition scenario_node :: "int \<Rightarrow> real list \<Rightarrow> int \<Rightarrow> int \<Rightarrow> node" where
  "scenario_node occ te served adm =
     \<lparr>name = ''Q1'', node_c = 1, node_k = 1, service_sampler = (1 / 2, 1 / 2),
      arrival_sampler = Some (1, 1), node_n = occ, tempo_estado = te, atendidos = served,
      perdas = 0, admitidos = adm\<rparr>"

definition scenario_start :: network_simulator where
  "scenario_start =
     \<lparr>rng = \<lparr>source = ListSource [0, 0, 0, 0, 0, 0, 0], used = 0\<rparr>,
      nodes = [(''Q1'', scenario_node 0 [0, 0] 0 0)],
      routing_table = [], total_arrivals_target = 3, total_arrivals_count = 0, sim_time = 0,
      last_update_time = 0, events = [], seq_counter = 0\<rparr>"

definition scenario_armed :: network_simulator where
  "scenario_armed =
     \<lparr>rng = \<lparr>source = ListSource [0, 0, 0, 0, 0, 0], used = 1\<rparr>,
      nodes = [(''Q1'', scenario_node 0 [0, 0] 0 0)],
      routing_table = [], total_arrivals_target = 3, total_arrivals_count = 0, sim_time = 0,
      last_update_time = 0,
      events = [\<lparr>time = 1, seq = 1, etype = ARRIVAL, node_name = ''Q1''\<rparr>],
      seq_counter = 1\<rparr>"

definition scenario_mid :: network_simulator where
  "scenario_mid =
     \<lparr>rng = \<lparr>source = ListSource [0, 0], used = 5\<rparr>,
      nodes = [(''Q1'', scenario_node 1 [3 / 2, 1 / 2] 1 2)],
      routing_table = [], total_arrivals_target = 3, total_arrivals_count = 2, sim_time = 2,
      last_update_time = 2,
      events = [\<lparr>time = 3, seq = 4, etype = ARRIVAL, node_name = ''Q1''\<rparr>,
                \<lparr>time = 5 / 2, seq = 5, etype = DEPARTURE, node_name = ''Q1''\<rparr>],
      seq_counter = 5\<rparr>"

definition scenario_final :: network_simulator where
  "scenario_final =
     \<lparr>rng = \<lparr>source = ListSource [], used = 7\<rparr>,
      nodes = [(''Q1'', scenario_node 1 [2, 1] 2 3)],
      routing_table = [], total_arrivals_target = 3, total_arrivals_count = 3, sim_time = 3,
      last_update_time = 3,
      events = [\<lparr>time = 4, seq = 6, etype = ARRIVAL, node_name = ''Q1''\<rparr>,
                \<lparr>time = 7 / 2, seq = 7, etype = DEPARTURE, node_name = ''Q1''\<rparr>],
      seq_counter = 7\<rparr>"

definition scenario_fila :: fila_result where
  "scenario_fila =
     \<lparr>servidores = 1, capacidade = 1, res_atendidos = 2, res_perdas = 0,
      res_tempo_estado = [2, 1], prob_estado = [2 / 3, 1 / 3]\<rparr>"

definition scenario_results :: results where
  "scenario_results =
     \<lparr>tempo_global = 3, randoms_usados = 7, chegadas_totais = 3,
      filas = [(''Q1'', scenario_fila)]\<rparr>"

text \<open>
  States of the scenario run with six zeros: as constructed, as the loop starts, and
  after four iterations, before the third arrival is popped.
\<close>

definition short_start :: network_simulator where
  "short_start =
     \<lparr>rng = \<lparr>source = ListSource [0, 0, 0, 0, 0, 0], used = 0\<rparr>,
      nodes = [(''Q1'', scenario_node 0 [0, 0] 0 0)],
      routing_table = [], total_arrivals_target = 3, total_arrivals_count = 0, sim_time = 0,
      last_update_time = 0, events = [], seq_counter = 0\<rparr>"

definition short_armed :: network_simulator where
  "short_armed =
     \<lparr>rng = \<lparr>source = ListSource [0, 0, 0, 0, 0], used = 1\<rparr>,
      nodes = [(''Q1'', scenario_node 0 [0, 0] 0 0)],
      routing_table = [], total_arrivals_target = 3, total_arrivals_count = 0, sim_time = 0,
      last_update_time = 0,
      events = [\<lparr>time = 1, seq = 1, etype = ARRIVAL, node_name = ''Q1''\<rparr>],
      seq_counter = 1\<rparr>"

definition short_last :: network_simulator where
  "short_last =
     \<lparr>rng = \<lparr>source = ListSource [0], used = 5\<rparr>,
      nodes = [(''Q1'', scenario_node 0 [3 / 2, 1] 2 2)],
      routing_table = [], total_arrivals_target = 3, total_arrivals_count = 2,
      sim_time = 5 / 2, last_update_time = 5 / 2,
      events = [\<lparr>time = 3, seq = 4, etype = ARRIVAL, node_name = ''Q1''\<rparr>],
      seq_counter = 5\<rparr>"

text \<open>
  A configuration of routing rules only, with a replay sequence, and the simulator
  constructed from the rules source to A with 0.3 and source to B with 0.7 and the
  deviate 0.5.
\<close>

definition routing_example :: "(string \<times> string \<times> real) list \<Rightarrow> real list \<Rightarrow> config" where
  "routing_example rules us =
     \<lparr>rndnumbers = Some us, seeds = None, seed = None, queues = [], network = rules, arrivals = []\<rparr>"

definition routing_state :: network_simulator where
  "routing_state =
     \<lparr>rng = \<lparr>source = ListSource [0.5], used = 0\<rparr>, nodes = [],
      routing_table = [(''source'', [(''A'', 0.3), (''B'', 1)])],
      total_arrivals_target = 0, total_arrivals_count = 0, sim_time = 0, last_update_time = 0,
      events = [], seq_counter = 0\<rparr>"

text \<open>A configuration whose queue gives no capacity.\<close>

definition unbounded_cfg :: config where
  "unbounded_cfg =
     \<lparr>rndnumbers = None, seeds = None, seed = Some 7,
      queues = [(''Q1'', \<lparr>servers = 1, capacity = None, minService = 1, maxService = 2,
                          minArrival = Some 1, maxArrival = Some 3\<rparr>)],
      network = [], arrivals = [(''Q1'', 10)]\<rparr>"





text \<open>
  A configuration with a negative inter-arrival time: one node, arrival range
  \<open>[-1, -1]\<close>, service range \<open>[0.5, 0.5]\<close>, a target of one external arrival.
\<close>

definition backwards_cfg :: config where
  "backwards_cfg =
     \<lparr>rndnumbers = Some [0, 0, 0], seeds = None, seed = None,
      queues = [(''Q1'', \<lparr>servers = 1, capacity = Some 1, minService = 1 / 2, maxService = 1 / 2,
                          minArrival = Some (- 1), maxArrival = Some (- 1)\<rparr>)],
      network = [], arrivals = [(''Q1'', 1)]\<rparr>"

text \<open>
  A configuration with a negative capacity: one node with \<open>k = - 1\<close>, arrival range
  \<open>[0, 0]\<close>, service range \<open>[1, 1]\<close>, a target of two external arrivals; and its states
  as constructed, as the loop starts and after two iterations.
\<close>

definition negative_capacity_cfg :: config where
  "negative_capacity_cfg =
     \<lparr>rndnumbers = Some [0, 0, 0], seeds = None, seed = None,
      queues = [(''Q1'', \<lparr>servers = 1, capacity = Some (- 1), minService = 1, maxService = 1,
                          minArrival = Some 0, maxArrival = Some 0\<rparr>)],
      network = [], arrivals = [(''Q1'', 2)]\<rparr>"

definition negative_capacity_node :: "int \<Rightarrow> node" where
  "negative_capacity_node lost =
     \<lparr>name = ''Q1'', node_c = 1, node_k = - 1, service_sampler = (1, 1),
      arrival_sampler = Some (0, 0), node_n = 0, tempo_estado = [], atendidos = 0,
      perdas = lost, admitidos = 0\<rparr>"

definition negative_capacity_start :: network_simulator where
  "negative_capacity_start =
     \<lparr>rng = \<lparr>source = ListSource [0, 0, 0], used = 0\<rparr>,
      nodes = [(''Q1'', negative_capacity_node 0)],
      routing_table = [], total_arrivals_target = 2, total_arrivals_count = 0, sim_time = 0,
      last_update_time = 0, events = [], seq_counter = 0\<rparr>"

definition negative_capacity_armed :: network_simulator where
  "negative_capacity_armed =
     \<lparr>rng = \<lparr>source = ListSource [0, 0], used = 1\<rparr>,
      nodes = [(''Q1'', negative_capacity_node 0)],
      routing_table = [], total_arrivals_target = 2, total_arrivals_count = 0, sim_time = 0,
      last_update_time = 0,
      events = [\<lparr>time = 0, seq = 1, etype = ARRIVAL, node_name = ''Q1''\<rparr>],
      seq_counter = 1\<rparr>"

definition negative_capacity_after :: network_simulator where
  "negative_capacity_after =
     \<lparr>rng = \<lparr>source = ListSource [], used = 3\<rparr>,
      nodes = [(''Q1'', negative_capacity_node 2)],
      routing_table = [], total_arrivals_target = 2, total_arrivals_count = 2, sim_time = 0,
      last_update_time = 0,
      events = [\<lparr>time = 0, seq = 3, etype = ARRIVAL, node_name = ''Q1''\<rparr>],
      seq_counter = 3\<rparr>"

section \<open>Verification\<close>

text \<open>The definitions that the run of a concrete configuration unfolds.\<close>

lemmas sim_defs = simulate_def run_def run_state_def NetworkSimulator_def SimulationRNG_def
  build_node_def py_int_def Node_def build_routing_def loop_cond_def step_def heappop_def heappush_def
  event_less_def update_time_stats_def add_time_def py_index_def on_arrival_def on_departure_def
  admit_and_start_def start_service_def route_customer_def admit_def finish_service_one_def sample_def schedule_def rng_u_def
  pick_destination_def get_results_def fila_of_def

subsection \<open>The routing resolver\<close>

lemma scan_rules_None: "scan_rules x rules = None \<longleftrightarrow> (\<forall>p\<in>set rules. snd p \<le> x)"
  by (induction rules) (auto split: if_splits)

lemma scan_rules_Some:
  "scan_rules x rules = Some t \<longleftrightarrow>
     (\<exists>pre cp post. rules = pre @ (t, cp) # post \<and> x < cp \<and> (\<forall>p\<in>set pre. snd p \<le> x))"
proof (induction rules)
  case Nil
  then show ?case by simp
next
  case (Cons r rules)
  obtain t0 c0 where r: "r = (t0, c0)" by (cases r)
  show ?case
  proof (cases "x < c0")
    case True
    have "(\<exists>pre cp post. (t0, c0) # rules = pre @ (t, cp) # post \<and> x < cp \<and> (\<forall>p\<in>set pre. snd p \<le> x))
          \<longleftrightarrow> t0 = t"
    proof
      assume "\<exists>pre cp post. (t0, c0) # rules = pre @ (t, cp) # post \<and> x < cp \<and> (\<forall>p\<in>set pre. snd p \<le> x)"
      then obtain pre cp post where
        e: "(t0, c0) # rules = pre @ (t, cp) # post" and a: "\<forall>p\<in>set pre. snd p \<le> x"
        by blast
      show "t0 = t"
      proof (cases pre)
        case Nil
        with e show ?thesis by simp
      next
        case (Cons q pre')
        with e have "q = (t0, c0)" by simp
        with a Cons True show ?thesis by auto
      qed
    next
      assume "t0 = t"
      then have "(t0, c0) # rules = [] @ (t, c0) # rules" by simp
      with True show "\<exists>pre cp post. (t0, c0) # rules = pre @ (t, cp) # post \<and> x < cp \<and> (\<forall>p\<in>set pre. snd p \<le> x)"
        by (metis empty_iff list.set(1))
    qed
    with True r show ?thesis by auto
  next
    case False
    have "(\<exists>pre cp post. (t0, c0) # rules = pre @ (t, cp) # post \<and> x < cp \<and> (\<forall>p\<in>set pre. snd p \<le> x))
          \<longleftrightarrow> (\<exists>pre cp post. rules = pre @ (t, cp) # post \<and> x < cp \<and> (\<forall>p\<in>set pre. snd p \<le> x))"
    proof
      assume "\<exists>pre cp post. (t0, c0) # rules = pre @ (t, cp) # post \<and> x < cp \<and> (\<forall>p\<in>set pre. snd p \<le> x)"
      then obtain pre cp post where
        e: "(t0, c0) # rules = pre @ (t, cp) # post" and lt: "x < cp" and a: "\<forall>p\<in>set pre. snd p \<le> x"
        by blast
      show "\<exists>pre cp post. rules = pre @ (t, cp) # post \<and> x < cp \<and> (\<forall>p\<in>set pre. snd p \<le> x)"
      proof (cases pre)
        case Nil
        with e lt False show ?thesis by simp
      next
        case (Cons q pre')
        with e have "rules = pre' @ (t, cp) # post" by simp
        moreover from a Cons have "\<forall>p\<in>set pre'. snd p \<le> x" by simp
        ultimately show ?thesis using lt by blast
      qed
    next
      assume "\<exists>pre cp post. rules = pre @ (t, cp) # post \<and> x < cp \<and> (\<forall>p\<in>set pre. snd p \<le> x)"
      then obtain pre cp post where
        e: "rules = pre @ (t, cp) # post" and lt: "x < cp" and a: "\<forall>p\<in>set pre. snd p \<le> x"
        by blast
      from e have "(t0, c0) # rules = ((t0, c0) # pre) @ (t, cp) # post" by simp
      moreover from a False have "\<forall>p\<in>set ((t0, c0) # pre). snd p \<le> x" by simp
      ultimately show "\<exists>pre cp post. (t0, c0) # rules = pre @ (t, cp) # post \<and> x < cp \<and> (\<forall>p\<in>set pre. snd p \<le> x)"
        using lt by blast
    qed
    with False r Cons.IH show ?thesis by simp
  qed
qed

text \<open>
  Claim C4. For a source with a non-empty routing table and a drawn deviate \<open>x\<close>,
  \<open>pick_destination\<close> returns the first target of the table whose cumulative
  probability is strictly greater than \<open>x\<close>: every entry before it has a cumulative
  probability less than or equal to \<open>x\<close>, so a cumulative probability equal to \<open>x\<close>
  does not match. It returns \<open>None\<close> when \<open>x\<close> is greater than or equal to every
  cumulative value. For the rules source to A with 0.3 and source to B with 0.7, in either
  order, the deviate 0.5 resolves to B, and so does the deviate 0.3, which equals the
  cumulative value of A; with a cumulative total of 0.9 the deviate 0.95 resolves to
  \<open>None\<close>.
\<close>

theorem pick_destination_first_exceeding:
  assumes "map_of (routing_table s) src = Some rules" and "rules \<noteq> []"
    and "rng_u (rng s) = (Inr x, r')"
  shows "(\<exists>d. pick_destination src s = Inr (d, s\<lparr>rng := r'\<rparr>) \<and>
            (case d of
               Some t \<Rightarrow> \<exists>pre cp post. rules = pre @ (t, cp) # post \<and> x < cp \<and> (\<forall>p\<in>set pre. snd p \<le> x)
             | None \<Rightarrow> \<forall>p\<in>set rules. snd p \<le> x)) \<and>
         route_once (routing_example [(''source'', ''A'', 0.3), (''source'', ''B'', 0.7)] [0.5]) ''source'' = Inr (Some ''B'') \<and>
         route_once (routing_example [(''source'', ''B'', 0.7), (''source'', ''A'', 0.3)] [0.5]) ''source'' = Inr (Some ''B'') \<and>
         route_once (routing_example [(''source'', ''A'', 0.3), (''source'', ''B'', 0.7)] [0.3]) ''source'' = Inr (Some ''B'') \<and>
         route_once (routing_example [(''source'', ''A'', 0.3), (''source'', ''B'', 0.6)] [0.95]) ''source'' = Inr None"
proof -
  have p: "pick_destination src s = Inr (scan_rules x rules, s\<lparr>rng := r'\<rparr>)"
    using assms by (simp add: pick_destination_def)
  have c: "case scan_rules x rules of
             Some t \<Rightarrow> \<exists>pre cp post. rules = pre @ (t, cp) # post \<and> x < cp \<and> (\<forall>p\<in>set pre. snd p \<le> x)
           | None \<Rightarrow> \<forall>p\<in>set rules. snd p \<le> x"
  proof (cases "scan_rules x rules")
    case None
    then have "\<forall>p\<in>set rules. snd p \<le> x" using scan_rules_None [of x rules] by blast
    with None show ?thesis by simp
  next
    case (Some t)
    then have "\<exists>pre cp post. rules = pre @ (t, cp) # post \<and> x < cp \<and> (\<forall>p\<in>set pre. snd p \<le> x)"
      using scan_rules_Some [of x rules t] by blast
    with Some show ?thesis by simp
  qed
  have e1: "route_once (routing_example [(''source'', ''A'', 0.3), (''source'', ''B'', 0.7)] [0.5]) ''source'' = Inr (Some ''B'')"
    by (simp add: route_once_def routing_example_def NetworkSimulator_def SimulationRNG_def
        build_routing_def pick_destination_def rng_u_def)
  have e2: "route_once (routing_example [(''source'', ''B'', 0.7), (''source'', ''A'', 0.3)] [0.5]) ''source'' = Inr (Some ''B'')"
    by (simp add: route_once_def routing_example_def NetworkSimulator_def SimulationRNG_def
        build_routing_def pick_destination_def rng_u_def)
  have e3: "route_once (routing_example [(''source'', ''A'', 0.3), (''source'', ''B'', 0.7)] [0.3]) ''source'' = Inr (Some ''B'')"
    by (simp add: route_once_def routing_example_def NetworkSimulator_def SimulationRNG_def
        build_routing_def pick_destination_def rng_u_def)
  have e4: "route_once (routing_example [(''source'', ''A'', 0.3), (''source'', ''B'', 0.6)] [0.95]) ''source'' = Inr None"
    by (simp add: route_once_def routing_example_def NetworkSimulator_def SimulationRNG_def
        build_routing_def pick_destination_def rng_u_def)
  from p c e1 e2 e3 e4 show ?thesis by blast
qed

theorem pick_destination_first_exceeding_witness:
  "NetworkSimulator (routing_example [(''source'', ''A'', 0.3), (''source'', ''B'', 0.7)] [0.5]) = Inr routing_state \<and>
   map_of (routing_table routing_state) ''source'' = Some [(''A'', 0.3), (''B'', 1)] \<and>
   rng_u (rng routing_state) = (Inr 0.5, \<lparr>source = ListSource [], used = 1\<rparr>) \<and>
   pick_destination ''source'' routing_state =
     Inr (Some ''B'', routing_state\<lparr>rng := \<lparr>source = ListSource [], used = 1\<rparr>\<rparr>)"
proof -
  have a: "map_of (routing_table routing_state) ''source'' = Some [(''A'', 0.3), (''B'', 1)]"
    by (simp add: routing_state_def)
  have b: "[(''A'', 0.3::real), (''B'', 1)] \<noteq> []" by simp
  have c: "rng_u (rng routing_state) = (Inr 0.5, \<lparr>source = ListSource [], used = 1\<rparr>)"
    by (simp add: routing_state_def rng_u_def)
  have d: "NetworkSimulator (routing_example [(''source'', ''A'', 0.3), (''source'', ''B'', 0.7)] [0.5]) = Inr routing_state"
    by (simp add: routing_example_def NetworkSimulator_def SimulationRNG_def build_routing_def routing_state_def)
  from pick_destination_first_exceeding [OF a b c]
  obtain dd where p: "pick_destination ''source'' routing_state = Inr (dd, routing_state\<lparr>rng := \<lparr>source = ListSource [], used = 1\<rparr>\<rparr>)"
    and q: "case dd of
               Some t \<Rightarrow> \<exists>pre cp post. [(''A'', 0.3::real), (''B'', 1)] = pre @ (t, cp) # post \<and> 0.5 < cp \<and> (\<forall>p\<in>set pre. snd p \<le> 0.5)
             | None \<Rightarrow> \<forall>p\<in>set [(''A'', 0.3::real), (''B'', 1)]. snd p \<le> 0.5"
    by blast
  have "dd = Some ''B''"
  proof (cases dd)
    case None
    with q show ?thesis by simp
  next
    case (Some t)
    with q obtain pre cp post where
      e: "[(''A'', 0.3::real), (''B'', 1)] = pre @ (t, cp) # post" and lt: "(0.5::real) < cp"
      by auto
    have "t = ''B''"
    proof (cases pre)
      case Nil
      with e lt show ?thesis by simp
    next
      case (Cons q1 pre1)
      note c1 = Cons
      show ?thesis
      proof (cases pre1)
        case Nil
        with e c1 show ?thesis by simp
      next
        case (Cons q2 pre2)
        with e c1 show ?thesis by simp
      qed
    qed
    with Some show ?thesis by simp
  qed
  with a c d p show ?thesis by simp
qed

text \<open>
  Claim C10. For a source that has no outgoing routing rules (no entry in the routing
  table, or an empty one), \<open>pick_destination\<close> returns \<open>None\<close> and the simulator is
  unchanged: no deviate is drawn, so the usage counter, the generator state and the
  remaining replay sequence are as before the call.
\<close>

theorem pick_destination_without_rules:
  assumes "map_of (routing_table s) src = None \<or> map_of (routing_table s) src = Some []"
  shows "pick_destination src s = Inr (None, s)"
  using assms by (auto simp: pick_destination_def)

theorem pick_destination_without_rules_witness:
  "(map_of (routing_table routing_state) ''A'' = None \<or>
    map_of (routing_table routing_state) ''A'' = Some []) \<and>
   pick_destination ''A'' routing_state = Inr (None, routing_state) \<and>
   rng routing_state = \<lparr>source = ListSource [0.5], used = 0\<rparr>"
proof -
  have a: "map_of (routing_table routing_state) ''A'' = None \<or>
           map_of (routing_table routing_state) ''A'' = Some []"
    by (simp add: routing_state_def)
  have b: "rng routing_state = \<lparr>source = ListSource [0.5], used = 0\<rparr>"
    by (simp add: routing_state_def)
  from a b pick_destination_without_rules [OF a] show ?thesis by simp
qed

subsection \<open>The single-node scenario\<close>

lemma scenario_start_constructed:
  "NetworkSimulator (scenario [0, 0, 0, 0, 0, 0, 0]) = Inr scenario_start"
  by (simp add: scenario_def scenario_start_def scenario_node_def sim_defs eval_nat_numeral)

lemma scenario_first_arrivals:
  "first_arrivals (nodes scenario_start) scenario_start = Inr scenario_armed"
  by (simp add: scenario_start_def scenario_armed_def scenario_node_def sim_defs)

lemma scenario_after_three: "state_after 3 scenario_armed = Some scenario_mid"
  by (simp add: scenario_armed_def scenario_mid_def scenario_node_def sim_defs eval_nat_numeral)

lemma scenario_run_state: "run_state 5 scenario_start = Some (Inr scenario_final)"
  by (simp add: scenario_start_def scenario_final_def scenario_node_def sim_defs eval_nat_numeral)

text \<open>
  Claim C3, as stated, fails: with the replay sequence of six zeros the run of the
  single-node scenario does not return statistics. The seventh draw, the service time of
  the third arrival, finds the replay list empty and the run ends with the exhaustion
  error.
\<close>

theorem scenario_six_deviates_exhausted:
  "simulate 5 (scenario [0, 0, 0, 0, 0, 0]) = Some (Inl RuntimeError)"
  by (simp add: scenario_def sim_defs eval_nat_numeral)

text \<open>
  Claim C3, amended. The single-node scenario (\<open>c = 1\<close>, \<open>k = 1\<close>, arrival range
  \<open>[1, 1]\<close>, service range \<open>[0.5, 0.5]\<close>, target of three external arrivals) draws seven
  deviates. With the replay sequence of six zeros the run aborts with the exhaustion
  error. With seven zeros the arrivals are processed at the simulated times 1, 2 and 3,
  each one admitted and put into service at once, with the departures of the first two at
  1.5 and 2.5; the loop stops when the third arrival has been counted, so the third
  customer is still in service (the final state holds the occupancy 1 and the departure
  pending at 3.5): zero losses, served count 2, final global time 3, time-in-state
  \<open>[2, 1]\<close>, seven deviates used.
\<close>

theorem scenario_seven_deviates:
  "simulate 5 (scenario [0, 0, 0, 0, 0, 0]) = Some (Inl RuntimeError) \<and>
   simulate 5 (scenario [0, 0, 0, 0, 0, 0, 0]) =
     Some (Inr \<lparr>tempo_global = 3, randoms_usados = 7, chegadas_totais = 3,
                filas = [(''Q1'', \<lparr>servidores = 1, capacidade = 1, res_atendidos = 2,
                                    res_perdas = 0, res_tempo_estado = [2, 1],
                                    prob_estado = [2 / 3, 1 / 3]\<rparr>)]\<rparr>) \<and>
   event_sequence 5 (scenario [0, 0, 0, 0, 0, 0, 0]) = scenario_events \<and>
   NetworkSimulator (scenario [0, 0, 0, 0, 0, 0, 0]) = Inr scenario_start \<and>
   run_state 5 scenario_start = Some (Inr scenario_final)"
proof -
  have a: "simulate 5 (scenario [0, 0, 0, 0, 0, 0]) = Some (Inl RuntimeError)"
    by (simp add: scenario_def sim_defs eval_nat_numeral)
  have b: "simulate 5 (scenario [0, 0, 0, 0, 0, 0, 0]) =
     Some (Inr \<lparr>tempo_global = 3, randoms_usados = 7, chegadas_totais = 3,
                filas = [(''Q1'', \<lparr>servidores = 1, capacidade = 1, res_atendidos = 2,
                                    res_perdas = 0, res_tempo_estado = [2, 1],
                                    prob_estado = [2 / 3, 1 / 3]\<rparr>)]\<rparr>)"
    by (simp add: scenario_def sim_defs eval_nat_numeral)
  have c: "event_sequence 5 (scenario [0, 0, 0, 0, 0, 0, 0]) = scenario_events"
    by (simp add: event_sequence_def scenario_events_def scenario_def sim_defs eval_nat_numeral)
  from a b c scenario_start_constructed scenario_run_state show ?thesis by simp
qed

subsection \<open>Construction\<close>

text \<open>
  Claim C6 on the code: a queue definition without the key \<^verbatim>\<open>capacity\<close> is not
  constructed as an unbounded node. The default \<^verbatim>\<open>float('inf')\<close> goes through
  \<^verbatim>\<open>int\<close>, which raises \<^verbatim>\<open>OverflowError\<close>, so the construction of the
  simulator fails.
\<close>

theorem unbounded_capacity_overflow:
  "NetworkSimulator unbounded_cfg = Inl OverflowError"
  by (simp add: unbounded_cfg_def NetworkSimulator_def build_node_def py_int_def)







subsection \<open>What the operations change\<close>

lemma schedule_simps [simp]:
  "nodes (schedule t ty nm s) = nodes s"
  "rng (schedule t ty nm s) = rng s"
  "routing_table (schedule t ty nm s) = routing_table s"
  "total_arrivals_target (schedule t ty nm s) = total_arrivals_target s"
  "total_arrivals_count (schedule t ty nm s) = total_arrivals_count s"
  "sim_time (schedule t ty nm s) = sim_time s"
  "last_update_time (schedule t ty nm s) = last_update_time s"
  "seq_counter (schedule t ty nm s) = seq_counter s + 1"
  "events (schedule t ty nm s) =
     events s @ [\<lparr>time = t, seq = seq_counter s + 1, etype = ty, node_name = nm\<rparr>]"
  by (simp_all add: schedule_def heappush_def Let_def)

lemma sample_Inr:
  assumes "sample rg s = Inr (x, s')"
  shows "\<exists>v r'. rng_u (rng s) = (Inr v, r') \<and> x = fst rg + (snd rg - fst rg) * v \<and> s' = s\<lparr>rng := r'\<rparr>"
  using assms by (auto simp: sample_def split: prod.splits sum.splits)

lemma start_service_Inr:
  assumes "start_service fila s = Inr s'"
  shows "\<exists>v r'. rng_u (rng s) = (Inr v, r') \<and>
           s' = schedule (sim_time s + (fst (service_sampler fila) +
                   (snd (service_sampler fila) - fst (service_sampler fila)) * v))
                 DEPARTURE (name fila) (s\<lparr>rng := r'\<rparr>)"
  using assms by (auto simp: start_service_def split: sum.splits dest!: sample_Inr)

lemma start_service_nodes: "start_service fila s = Inr s' \<Longrightarrow> nodes s' = nodes s"
  by (auto dest!: start_service_Inr)

lemma pick_destination_Inr:
  assumes "pick_destination nm s = Inr (d, s')"
  shows "s' = s \<or> (\<exists>v r'. rng_u (rng s) = (Inr v, r') \<and> s' = s\<lparr>rng := r'\<rparr>)"
  using assms by (auto simp: pick_destination_def split: option.splits if_splits prod.splits sum.splits)

lemma pick_destination_nodes: "pick_destination nm s = Inr (d, s') \<Longrightarrow> nodes s' = nodes s"
  by (auto dest!: pick_destination_Inr)

subsection \<open>Properties kept by every node operation\<close>

lemma set_update_cases:
  "p \<in> set (AList.update k v al) \<Longrightarrow> p = (k, v) \<or> p \<in> set al"
  by (induction al) (auto split: if_splits)

lemma nodes_all_update:
  "nodes_all P s \<Longrightarrow> P nd \<Longrightarrow> nodes_all P (s\<lparr>nodes := AList.update key nd (nodes s)\<rparr>)"
  by (auto simp: nodes_all_def dest!: set_update_cases)

lemma nodes_all_lookup: "nodes_all P s \<Longrightarrow> map_of (nodes s) key = Some nd \<Longrightarrow> P nd"
  by (auto simp: nodes_all_def dest!: map_of_SomeD)

lemma nodes_all_cong: "nodes s' = nodes s \<Longrightarrow> nodes_all P s' = nodes_all P s"
  by (simp add: nodes_all_def)

lemma admit_and_start_nodes_all:
  assumes "admit_and_start key s = Inr s'" and "nodes_all P s"
    and adm: "\<And>nd. P nd \<Longrightarrow> P (snd (admit nd))"
  shows "nodes_all P s'"
proof -
  from assms(1) obtain fila where f: "map_of (nodes s) key = Some fila"
    by (auto simp: admit_and_start_def split: option.splits)
  let ?s1 = "s\<lparr>nodes := AList.update key (snd (admit fila)) (nodes s)\<rparr>"
  have p: "nodes_all P ?s1"
    using nodes_all_update [OF assms(2) adm [OF nodes_all_lookup [OF assms(2) f]]] .
  from assms(1) f have "s' = ?s1 \<or> start_service (snd (admit fila)) ?s1 = Inr s'"
    by (auto simp: admit_and_start_def Let_def split: prod.splits if_splits)
  then show ?thesis
  proof
    assume "s' = ?s1"
    with p show ?thesis by simp
  next
    assume "start_service (snd (admit fila)) ?s1 = Inr s'"
    from start_service_nodes [OF this] p show ?thesis by (simp add: nodes_all_def)
  qed
qed

lemma route_customer_nodes_all:
  assumes "route_customer nm s = Inr s'" and "nodes_all P s"
    and adm: "\<And>nd. P nd \<Longrightarrow> P (snd (admit nd))"
  shows "nodes_all P s'"
proof -
  from assms(1) have "\<exists>d s1. pick_destination nm s = Inr (d, s1) \<and>
      (s' = s1 \<or> (\<exists>dn. admit_and_start dn s1 = Inr s'))"
    by (auto simp: route_customer_def split: sum.splits option.splits if_splits)
  then obtain d s1 where pd: "pick_destination nm s = Inr (d, s1)"
    and r: "s' = s1 \<or> (\<exists>dn. admit_and_start dn s1 = Inr s')"
    by blast
  from pick_destination_nodes [OF pd] assms(2) have p1: "nodes_all P s1"
    by (simp add: nodes_all_def)
  from r show ?thesis
  proof
    assume "s' = s1"
    with p1 show ?thesis by simp
  next
    assume "\<exists>dn. admit_and_start dn s1 = Inr s'"
    then obtain dn where "admit_and_start dn s1 = Inr s'" ..
    from admit_and_start_nodes_all [OF this p1 adm] show ?thesis .
  qed
qed

lemma on_arrival_Inr:
  assumes "on_arrival key s = Inr s'"
  shows "\<exists>s3. nodes s3 = nodes s \<and> admit_and_start key s3 = Inr s'"
proof -
  from assms obtain fila where f: "map_of (nodes s) key = Some fila"
    by (auto simp: on_arrival_def split: option.splits)
  let ?s1 = "s\<lparr>total_arrivals_count := total_arrivals_count s + 1\<rparr>"
  show ?thesis
  proof (cases "arrival_sampler fila")
    case None
    with assms f have "admit_and_start key ?s1 = Inr s'" by (simp add: on_arrival_def)
    moreover have "nodes ?s1 = nodes s" by simp
    ultimately show ?thesis by blast
  next
    case (Some rg)
    with assms f obtain x s2 where sm: "sample rg ?s1 = Inr (x, s2)"
      and a: "admit_and_start key (schedule (sim_time s2 + x) ARRIVAL (name fila) s2) = Inr s'"
      by (auto simp: on_arrival_def split: sum.splits)
    from sample_Inr [OF sm] have "nodes (schedule (sim_time s2 + x) ARRIVAL (name fila) s2) = nodes s"
      by auto
    with a show ?thesis by blast
  qed
qed

lemma on_arrival_nodes_all:
  assumes "on_arrival key s = Inr s'" and "nodes_all P s"
    and adm: "\<And>nd. P nd \<Longrightarrow> P (snd (admit nd))"
  shows "nodes_all P s'"
proof -
  from on_arrival_Inr [OF assms(1)] obtain s3 where
    n3: "nodes s3 = nodes s" and a: "admit_and_start key s3 = Inr s'"
    by blast
  from n3 assms(2) have "nodes_all P s3" by (simp add: nodes_all_def)
  from admit_and_start_nodes_all [OF a this adm] show ?thesis .
qed

lemma on_departure_nodes_all:
  assumes "on_departure key s = Inr s'" and "nodes_all P s"
    and adm: "\<And>nd. P nd \<Longrightarrow> P (snd (admit nd))"
    and fin: "\<And>nd. P nd \<Longrightarrow> P (finish_service_one nd)"
  shows "nodes_all P s'"
proof -
  from assms(1) obtain fila where f: "map_of (nodes s) key = Some fila"
    by (auto simp: on_departure_def split: option.splits)
  let ?f = "finish_service_one fila"
  let ?s1 = "s\<lparr>nodes := AList.update key ?f (nodes s)\<rparr>"
  have p: "nodes_all P ?s1"
    using nodes_all_update [OF assms(2) fin [OF nodes_all_lookup [OF assms(2) f]]] .
  from assms(1) f have "\<exists>s2. (s2 = ?s1 \<or> start_service ?f ?s1 = Inr s2) \<and>
      route_customer (name ?f) s2 = Inr s'"
    by (auto simp: on_departure_def Let_def split: sum.splits if_splits)
  then obtain s2 where s2: "s2 = ?s1 \<or> start_service ?f ?s1 = Inr s2"
    and r: "route_customer (name ?f) s2 = Inr s'"
    by blast
  from s2 have "nodes_all P s2"
  proof
    assume "s2 = ?s1"
    with p show ?thesis by simp
  next
    assume "start_service ?f ?s1 = Inr s2"
    from start_service_nodes [OF this] p show ?thesis by (simp add: nodes_all_def)
  qed
  from route_customer_nodes_all [OF r this adm] show ?thesis .
qed

lemma add_time_all_set:
  assumes "add_time_all dt ns = Inr ns'" and "p' \<in> set ns'"
  shows "\<exists>nd nd'. (fst p', nd) \<in> set ns \<and> add_time dt nd = Inr nd' \<and> p' = (fst p', nd')"
  using assms
proof (induction ns arbitrary: ns')
  case Nil
  then show ?case by simp
next
  case (Cons a ns)
  obtain nm nd where a: "a = (nm, nd)" by (cases a)
  from Cons.prems(1) a obtain nd' rest' where
    h: "add_time dt nd = Inr nd'" and t: "add_time_all dt ns = Inr rest'" and e: "ns' = (nm, nd') # rest'"
    by (auto split: sum.splits)
  from Cons.prems(2) e have "p' = (nm, nd') \<or> p' \<in> set rest'" by auto
  then show ?case
  proof
    assume "p' = (nm, nd')"
    with h a show ?thesis by auto
  next
    assume "p' \<in> set rest'"
    from Cons.IH [OF t this] show ?thesis by auto
  qed
qed

lemma update_time_stats_nodes_all:
  assumes "update_time_stats t s = Inr s'" and "nodes_all P s"
    and tim: "\<And>nd dt nd'. P nd \<Longrightarrow> add_time dt nd = Inr nd' \<Longrightarrow> P nd'"
  shows "nodes_all P s'"
proof (cases "t - last_update_time s > 0")
  case False
  with assms(1) have "nodes s' = nodes s" by (auto simp: update_time_stats_def)
  with assms(2) show ?thesis by (simp add: nodes_all_def)
next
  case True
  with assms(1) obtain ns where a: "add_time_all (t - last_update_time s) (nodes s) = Inr ns"
    and n: "nodes s' = ns"
    by (auto simp: update_time_stats_def Let_def split: sum.splits)
  show ?thesis
    unfolding nodes_all_def
  proof
    fix p' assume "p' \<in> set (nodes s')"
    with n have "p' \<in> set ns" by simp
    from add_time_all_set [OF a this] obtain nd nd' where
      m: "(fst p', nd) \<in> set (nodes s)" and h: "add_time (t - last_update_time s) nd = Inr nd'"
      and e: "p' = (fst p', nd')" by blast
    from m assms(2) have "P nd" by (auto simp: nodes_all_def)
    from tim [OF this h] e show "P (snd p')" by (metis snd_conv)
  qed
qed

lemma heappop_Inr:
  assumes "heappop evs = Inr (ev, rest)"
  shows "ev \<in> set evs \<and> rest = remove1 ev evs"
proof -
  have m: "least_event m es \<in> set (m # es)" for m es
    by (induction es arbitrary: m) (auto split: if_splits)
  show ?thesis
  proof (cases evs)
    case Nil
    with assms show ?thesis by (simp add: heappop_def)
  next
    case (Cons e es)
    with assms have "ev = least_event e es" and "rest = remove1 ev evs"
      by (auto simp: heappop_def Let_def)
    with m [of e es] Cons show ?thesis by simp
  qed
qed

lemma step_Inr:
  assumes "step s = Inr s'"
  shows "\<exists>ev rest s1. heappop (events s) = Inr (ev, rest) \<and>
           update_time_stats (time ev) (s\<lparr>events := rest\<rparr>) = Inr s1 \<and>
           (etype ev = ARRIVAL \<and> on_arrival (node_name ev) (s1\<lparr>sim_time := time ev\<rparr>) = Inr s' \<or>
            etype ev = DEPARTURE \<and> on_departure (node_name ev) (s1\<lparr>sim_time := time ev\<rparr>) = Inr s')"
proof -
  from assms obtain ev :: event and rest where h: "heappop (events s) = Inr (ev, rest)"
    by (auto simp: step_def split: sum.splits)
  with assms obtain s1 where u: "update_time_stats (time ev) (s\<lparr>events := rest\<rparr>) = Inr s1"
    by (auto simp: step_def split: sum.splits)
  from assms h u show ?thesis
    by (cases "etype ev") (auto simp: step_def Let_def)
qed

lemma step_nodes_all:
  assumes "step s = Inr s'" and "nodes_all P s"
    and adm: "\<And>nd. P nd \<Longrightarrow> P (snd (admit nd))"
    and fin: "\<And>nd. P nd \<Longrightarrow> P (finish_service_one nd)"
    and tim: "\<And>nd dt nd'. P nd \<Longrightarrow> add_time dt nd = Inr nd' \<Longrightarrow> P nd'"
  shows "nodes_all P s'"
proof -
  from step_Inr [OF assms(1)] obtain ev :: event and rest s1 where
    u: "update_time_stats (time ev) (s\<lparr>events := rest\<rparr>) = Inr s1"
    and d: "etype ev = ARRIVAL \<and> on_arrival (node_name ev) (s1\<lparr>sim_time := time ev\<rparr>) = Inr s' \<or>
            etype ev = DEPARTURE \<and> on_departure (node_name ev) (s1\<lparr>sim_time := time ev\<rparr>) = Inr s'"
    by blast
  from assms(2) have "nodes_all P (s\<lparr>events := rest\<rparr>)" by (simp add: nodes_all_def)
  from update_time_stats_nodes_all [OF u this tim] have "nodes_all P (s1\<lparr>sim_time := time ev\<rparr>)"
    by (simp add: nodes_all_def)
  then have p: "nodes_all P (s1\<lparr>sim_time := time ev\<rparr>)" .
  from d show ?thesis
  proof
    assume "etype ev = ARRIVAL \<and> on_arrival (node_name ev) (s1\<lparr>sim_time := time ev\<rparr>) = Inr s'"
    then have "on_arrival (node_name ev) (s1\<lparr>sim_time := time ev\<rparr>) = Inr s'" ..
    then show ?thesis using p adm by (rule on_arrival_nodes_all)
  next
    assume "etype ev = DEPARTURE \<and> on_departure (node_name ev) (s1\<lparr>sim_time := time ev\<rparr>) = Inr s'"
    then have "on_departure (node_name ev) (s1\<lparr>sim_time := time ev\<rparr>) = Inr s'" ..
    then show ?thesis using p adm fin by (rule on_departure_nodes_all)
  qed
qed

lemma state_after_nodes_all:
  assumes "state_after i s = Some s'" and "nodes_all P s"
    and adm: "\<And>nd. P nd \<Longrightarrow> P (snd (admit nd))"
    and fin: "\<And>nd. P nd \<Longrightarrow> P (finish_service_one nd)"
    and tim: "\<And>nd dt nd'. P nd \<Longrightarrow> add_time dt nd = Inr nd' \<Longrightarrow> P nd'"
  shows "nodes_all P s'"
  using assms(1,2)
proof (induction i arbitrary: s)
  case 0
  then show ?case by simp
next
  case (Suc i)
  from Suc.prems(1) obtain s1 where st: "step s = Inr s1" and r: "state_after i s1 = Some s'"
    by (auto split: if_splits sum.splits)
  from step_nodes_all [OF st Suc.prems(2) adm fin tim] have "nodes_all P s1" .
  from Suc.IH [OF r this] show ?case .
qed

lemma run_loop_state_after:
  "run_loop fuel s = Some (Inr s') \<Longrightarrow> \<exists>i\<le>fuel. state_after i s = Some s' \<and> \<not> loop_cond s'"
proof (induction fuel arbitrary: s)
  case 0
  then show ?case by (auto split: if_splits)
next
  case (Suc fuel)
  show ?case
  proof (cases "loop_cond s")
    case False
    with Suc.prems show ?thesis by auto
  next
    case True
    with Suc.prems obtain s1 where st: "step s = Inr s1" and r: "run_loop fuel s1 = Some (Inr s')"
      by (auto split: sum.splits)
    from Suc.IH [OF r] obtain i where "i \<le> fuel" "state_after i s1 = Some s'" "\<not> loop_cond s'" by blast
    with True st have "Suc i \<le> Suc fuel \<and> state_after (Suc i) s = Some s' \<and> \<not> loop_cond s'" by simp
    then show ?thesis by blast
  qed
qed

lemma first_arrivals_nodes: "first_arrivals ns s = Inr s' \<Longrightarrow> nodes s' = nodes s"
proof (induction ns arbitrary: s)
  case Nil
  then show ?case by simp
next
  case (Cons a ns)
  obtain nm nd where a: "a = (nm, nd)" by (cases a)
  show ?case
  proof (cases "arrival_sampler nd")
    case None
    with Cons a show ?thesis by simp
  next
    case (Some rg)
    with Cons.prems a obtain t s1 where sm: "sample rg s = Inr (t, s1)"
      and r: "first_arrivals ns (schedule t ARRIVAL nm s1) = Inr s'"
      by (auto split: sum.splits)
    from Cons.IH [OF r] sample_Inr [OF sm] show ?thesis by auto
  qed
qed

lemma run_state_Inr:
  assumes "run_state fuel s = Some (Inr s')"
  shows "\<exists>s0 i s1. first_arrivals (nodes s) s = Inr s0 \<and> i \<le> fuel \<and> state_after i s0 = Some s1 \<and>
           \<not> loop_cond s1 \<and> update_time_stats (sim_time s1) s1 = Inr s'"
proof -
  from assms obtain s0 s1 where f: "first_arrivals (nodes s) s = Inr s0"
    and l: "run_loop fuel s0 = Some (Inr s1)" and u: "update_time_stats (sim_time s1) s1 = Inr s'"
    by (auto simp: run_state_def split: sum.splits option.splits)
  from run_loop_state_after [OF l] f u show ?thesis by blast
qed

lemma run_state_nodes_all:
  assumes "run_state fuel s = Some (Inr s')" and "nodes_all P s"
    and adm: "\<And>nd. P nd \<Longrightarrow> P (snd (admit nd))"
    and fin: "\<And>nd. P nd \<Longrightarrow> P (finish_service_one nd)"
    and tim: "\<And>nd dt nd'. P nd \<Longrightarrow> add_time dt nd = Inr nd' \<Longrightarrow> P nd'"
  shows "nodes_all P s'"
proof -
  from run_state_Inr [OF assms(1)] obtain s0 i s1 where
    f: "first_arrivals (nodes s) s = Inr s0" and a: "state_after i s0 = Some s1"
    and u: "update_time_stats (sim_time s1) s1 = Inr s'" by blast
  from first_arrivals_nodes [OF f] assms(2) have "nodes_all P s0" by (simp add: nodes_all_def)
  from state_after_nodes_all [OF a this adm fin tim] have "nodes_all P s1" .
  from update_time_stats_nodes_all [OF u this tim] show ?thesis .
qed

lemma build_node_Inr:
  assumes "build_node nm p = Inr nd"
  shows "\<exists>cv kv ssam asam. nd = Node nm cv kv ssam asam"
proof -
  from assms have "nd = Node nm (servers p) (the (capacity p)) (minService p, maxService p)
      (case (minArrival p, maxArrival p) of (Some lo, Some hi) \<Rightarrow> Some (lo, hi) | _ \<Rightarrow> None)"
    by (auto simp: build_node_def py_int_def Let_def split: sum.splits option.splits)
  then show ?thesis by blast
qed

lemma build_nodes_all:
  assumes "build_nodes qs acc = Inr ns" and "\<forall>p\<in>set acc. P (snd p)"
    and "\<And>nm cv kv ssam asam. P (Node nm cv kv ssam asam)"
  shows "\<forall>p\<in>set ns. P (snd p)"
  using assms(1,2)
proof (induction qs arbitrary: acc)
  case Nil
  then show ?case by simp
next
  case (Cons q qs)
  obtain nm p where q: "q = (nm, p)" by (cases q)
  from Cons.prems(1) q obtain nd where b: "build_node nm p = Inr nd"
    and r: "build_nodes qs (AList.update nm nd acc) = Inr ns"
    by (auto split: sum.splits)
  from build_node_Inr [OF b] assms(3) have "P nd" by auto
  with Cons.prems(2) have "\<forall>p\<in>set (AList.update nm nd acc). P (snd p)"
    by (auto dest!: set_update_cases)
  from Cons.IH [OF r this] show ?case .
qed

lemma NetworkSimulator_nodes_all:
  assumes "NetworkSimulator cfg = Inr s" and "\<And>nm cv kv ssam asam. P (Node nm cv kv ssam asam)"
  shows "nodes_all P s"
proof -
  from assms(1) obtain ns where b: "build_nodes (queues cfg) [] = Inr ns" and n: "nodes s = ns"
    by (auto simp: NetworkSimulator_def split: sum.splits)
  have "\<forall>p\<in>set ns. P (snd p)"
    by (rule build_nodes_all [where P = P and acc = "[]", OF b]) (simp_all add: assms(2))
  with n show ?thesis by (simp add: nodes_all_def)
qed

subsection \<open>Conservation of customers\<close>

text \<open>
  Claim C5. At the end of every completed run, for every node, the number of successful
  admissions during the run (the ghost counter \<open>admitidos\<close>) equals the served count plus
  the final occupancy: every admitted arrival is counted exactly once, as served or as
  still present.
\<close>

theorem admitted_served_or_present:
  assumes "NetworkSimulator cfg = Inr s0" and "run_state fuel s0 = Some (Inr s)"
    and "(key, nd) \<in> set (nodes s)"
  shows "admitidos nd = atendidos nd + node_n nd"
proof -
  have i: "nodes_all conserved s0"
    by (rule NetworkSimulator_nodes_all [OF assms(1)]) (simp add: conserved_def Node_def)
  have "nodes_all conserved s"
  proof (rule run_state_nodes_all [OF assms(2) i])
    show "conserved (snd (admit nd))" if "conserved nd" for nd
      using that by (simp add: conserved_def admit_def)
    show "conserved (finish_service_one nd)" if "conserved nd" for nd
      using that by (simp add: conserved_def finish_service_one_def)
    show "conserved nd'" if "conserved nd" "add_time dt nd = Inr nd'" for nd dt nd'
      using that by (auto simp: conserved_def add_time_def split: option.splits)
  qed
  with assms(3) show ?thesis by (auto simp: nodes_all_def conserved_def)
qed

theorem admitted_served_or_present_witness:
  "NetworkSimulator (scenario [0, 0, 0, 0, 0, 0, 0]) = Inr scenario_start \<and>
   run_state 5 scenario_start = Some (Inr scenario_final) \<and>
   (''Q1'', scenario_node 1 [2, 1] 2 3) \<in> set (nodes scenario_final) \<and>
   admitidos (scenario_node 1 [2, 1] 2 3) =
     atendidos (scenario_node 1 [2, 1] 2 3) + node_n (scenario_node 1 [2, 1] 2 3) \<and>
   admitidos (scenario_node 1 [2, 1] 2 3) = 3"
proof -
  have m: "(''Q1'', scenario_node 1 [2, 1] 2 3) \<in> set (nodes scenario_final)"
    by (simp add: scenario_final_def)
  have "admitidos (scenario_node 1 [2, 1] 2 3) = 3" by (simp add: scenario_node_def)
  with admitted_served_or_present [OF scenario_start_constructed scenario_run_state m]
    scenario_start_constructed scenario_run_state m
  show ?thesis by simp
qed

subsection \<open>The clock and the time in state\<close>

lemma next_random_unit: "next_random st = (x, st') \<Longrightarrow> 0 \<le> x \<and> x \<le> 1"
proof -
  assume a: "next_random st = (x, st')"
  let ?r = "(lcg_a * st + lcg_c) mod lcg_m"
  have m: "0 < lcg_m" by (simp add: lcg_m_def)
  then have "0 \<le> ?r" and "?r < lcg_m" by simp_all
  then have "0 \<le> real_of_int ?r" and "real_of_int ?r \<le> real_of_int lcg_m" by simp_all
  moreover from a have "x = real_of_int ?r / real_of_int lcg_m"
    by (auto simp: next_random_def Let_def)
  ultimately show ?thesis using m by (simp add: divide_le_eq)
qed

lemma rng_u_unit:
  assumes "rng_u r = (Inr v, r')" and "unit_deviates r"
  shows "0 \<le> v \<and> v \<le> 1 \<and> unit_deviates r'"
proof (cases "source r")
  case (ListSource xs)
  with assms show ?thesis
    by (cases xs) (auto simp: rng_u_def unit_deviates_def)
next
  case (LcgSource st)
  obtain x st' where n: "next_random st = (x, st')" by (cases "next_random st")
  with assms LcgSource have "v = x" and "source r' = LcgSource st'"
    by (auto simp: rng_u_def)
  with next_random_unit [OF n] show ?thesis by (simp add: unit_deviates_def)
qed

lemma scaled_nonneg:
  fixes a b v :: real
  assumes "0 \<le> a" "0 \<le> b" "0 \<le> v" "v \<le> 1"
  shows "0 \<le> a + (b - a) * v"
proof -
  have "a + (b - a) * v = a * (1 - v) + b * v" by (simp add: algebra_simps)
  moreover from assms have "0 \<le> a * (1 - v)" and "0 \<le> b * v" by simp_all
  ultimately show ?thesis by simp
qed

lemma clock_inv_schedule:
  "clock_inv T s \<Longrightarrow> T \<le> t \<Longrightarrow> clock_inv T (schedule t ty nm s)"
  by (simp add: clock_inv_def)

lemma clock_inv_nodes [simp]: "clock_inv T (s\<lparr>nodes := ns\<rparr>) = clock_inv T s"
  by (simp add: clock_inv_def)

lemma clock_inv_count [simp]: "clock_inv T (s\<lparr>total_arrivals_count := k\<rparr>) = clock_inv T s"
  by (simp add: clock_inv_def)

lemma sample_clock:
  assumes "sample rg s = Inr (x, s')" and "clock_inv T s" and "nonneg_sampler rg"
  shows "0 \<le> x \<and> clock_inv T s'"
proof -
  from sample_Inr [OF assms(1)] obtain v r' where
    u: "rng_u (rng s) = (Inr v, r')" and x: "x = fst rg + (snd rg - fst rg) * v"
    and s': "s' = s\<lparr>rng := r'\<rparr>" by blast
  from assms(2) have "unit_deviates (rng s)" by (simp add: clock_inv_def)
  from rng_u_unit [OF u this] have v: "0 \<le> v" "v \<le> 1" and r: "unit_deviates r'" by simp_all
  from assms(3) v x have "0 \<le> x" by (simp add: nonneg_sampler_def scaled_nonneg)
  moreover from assms(2) r s' have "clock_inv T s'" by (simp add: clock_inv_def)
  ultimately show ?thesis ..
qed

lemma start_service_clock:
  assumes "start_service fila s = Inr s'" and "clock_inv T s" and "nonneg_node fila"
  shows "clock_inv T s'"
proof -
  from assms(1) obtain x s1 where sm: "sample (service_sampler fila) s = Inr (x, s1)"
    and s': "s' = schedule (sim_time s1 + x) DEPARTURE (name fila) s1"
    by (auto simp: start_service_def split: sum.splits)
  from assms(3) have "nonneg_sampler (service_sampler fila)" by (simp add: nonneg_node_def)
  from sample_clock [OF sm assms(2) this] have x: "0 \<le> x" and c: "clock_inv T s1" by simp_all
  from c have "sim_time s1 = T" by (simp add: clock_inv_def)
  with x have "T \<le> sim_time s1 + x" by simp
  from clock_inv_schedule [OF c this] s' show ?thesis by simp
qed

lemma nonneg_admit: "nonneg_node nd \<Longrightarrow> nonneg_node (snd (admit nd))"
  by (simp add: nonneg_node_def admit_def)

lemma nonneg_finish: "nonneg_node nd \<Longrightarrow> nonneg_node (finish_service_one nd)"
  by (simp add: nonneg_node_def finish_service_one_def)

lemma admit_and_start_clock:
  assumes "admit_and_start key s = Inr s'" and "clock_inv T s" and "nodes_all nonneg_node s"
  shows "clock_inv T s'"
proof -
  from assms(1) obtain fila where f: "map_of (nodes s) key = Some fila"
    by (auto simp: admit_and_start_def split: option.splits)
  let ?s1 = "s\<lparr>nodes := AList.update key (snd (admit fila)) (nodes s)\<rparr>"
  from assms(1) f have "s' = ?s1 \<or> start_service (snd (admit fila)) ?s1 = Inr s'"
    by (auto simp: admit_and_start_def Let_def split: prod.splits if_splits)
  then show ?thesis
  proof
    assume "s' = ?s1"
    with assms(2) show ?thesis by simp
  next
    assume st: "start_service (snd (admit fila)) ?s1 = Inr s'"
    have c: "clock_inv T ?s1" using assms(2) by simp
    from nonneg_admit [OF nodes_all_lookup [OF assms(3) f]]
    show ?thesis by (rule start_service_clock [OF st c])
  qed
qed

lemma pick_destination_clock:
  assumes "pick_destination nm s = Inr (d, s')" and "clock_inv T s"
  shows "clock_inv T s'"
proof -
  from pick_destination_Inr [OF assms(1)]
  show ?thesis
  proof
    assume "s' = s"
    with assms(2) show ?thesis by simp
  next
    assume "\<exists>v r'. rng_u (rng s) = (Inr v, r') \<and> s' = s\<lparr>rng := r'\<rparr>"
    then obtain v r' where u: "rng_u (rng s) = (Inr v, r')" and s': "s' = s\<lparr>rng := r'\<rparr>" by blast
    from assms(2) have "unit_deviates (rng s)" by (simp add: clock_inv_def)
    from rng_u_unit [OF u this] assms(2) s' show ?thesis by (simp add: clock_inv_def)
  qed
qed

lemma route_customer_clock:
  assumes "route_customer nm s = Inr s'" and "clock_inv T s" and "nodes_all nonneg_node s"
  shows "clock_inv T s'"
proof -
  from assms(1) have "\<exists>d s1. pick_destination nm s = Inr (d, s1) \<and>
      (s' = s1 \<or> (\<exists>dn. admit_and_start dn s1 = Inr s'))"
    by (auto simp: route_customer_def split: sum.splits option.splits if_splits)
  then obtain d s1 where pd: "pick_destination nm s = Inr (d, s1)"
    and r: "s' = s1 \<or> (\<exists>dn. admit_and_start dn s1 = Inr s')"
    by blast
  from pick_destination_clock [OF pd assms(2)] have c1: "clock_inv T s1" .
  from pick_destination_nodes [OF pd] assms(3) have n1: "nodes_all nonneg_node s1"
    by (simp add: nodes_all_def)
  from r show ?thesis
  proof
    assume "s' = s1"
    with c1 show ?thesis by simp
  next
    assume "\<exists>dn. admit_and_start dn s1 = Inr s'"
    then obtain dn where "admit_and_start dn s1 = Inr s'" ..
    from admit_and_start_clock [OF this c1 n1] show ?thesis .
  qed
qed

lemma on_arrival_clock:
  assumes "on_arrival key s = Inr s'" and "clock_inv T s" and "nodes_all nonneg_node s"
  shows "clock_inv T s'"
proof -
  from assms(1) obtain fila where f: "map_of (nodes s) key = Some fila"
    by (auto simp: on_arrival_def split: option.splits)
  let ?s1 = "s\<lparr>total_arrivals_count := total_arrivals_count s + 1\<rparr>"
  have c1: "clock_inv T ?s1" using assms(2) by simp
  have n1: "nodes_all nonneg_node ?s1" using assms(3) by (simp add: nodes_all_def)
  show ?thesis
  proof (cases "arrival_sampler fila")
    case None
    with assms(1) f have "admit_and_start key ?s1 = Inr s'" by (simp add: on_arrival_def)
    from admit_and_start_clock [OF this c1 n1] show ?thesis .
  next
    case (Some rg)
    with assms(1) f obtain x s2 where sm: "sample rg ?s1 = Inr (x, s2)"
      and a: "admit_and_start key (schedule (sim_time s2 + x) ARRIVAL (name fila) s2) = Inr s'"
      by (auto simp: on_arrival_def split: sum.splits)
    from nodes_all_lookup [OF assms(3) f] Some have "nonneg_sampler rg"
      by (simp add: nonneg_node_def)
    from sample_clock [OF sm c1 this] have x: "0 \<le> x" and c2: "clock_inv T s2" by simp_all
    from c2 have "sim_time s2 = T" by (simp add: clock_inv_def)
    with x have "T \<le> sim_time s2 + x" by simp
    from clock_inv_schedule [OF c2 this]
    have c3: "clock_inv T (schedule (sim_time s2 + x) ARRIVAL (name fila) s2)" .
    from sample_Inr [OF sm] n1 have "nodes_all nonneg_node (schedule (sim_time s2 + x) ARRIVAL (name fila) s2)"
      by (auto simp: nodes_all_def)
    from admit_and_start_clock [OF a c3 this] show ?thesis .
  qed
qed

lemma on_departure_clock:
  assumes "on_departure key s = Inr s'" and "clock_inv T s" and "nodes_all nonneg_node s"
  shows "clock_inv T s'"
proof -
  from assms(1) obtain fila where f: "map_of (nodes s) key = Some fila"
    by (auto simp: on_departure_def split: option.splits)
  let ?f = "finish_service_one fila"
  let ?s1 = "s\<lparr>nodes := AList.update key ?f (nodes s)\<rparr>"
  have nf: "nonneg_node ?f" using nonneg_finish [OF nodes_all_lookup [OF assms(3) f]] .
  have c1: "clock_inv T ?s1" using assms(2) by simp
  have n1: "nodes_all nonneg_node ?s1" using nodes_all_update [OF assms(3) nf] .
  from assms(1) f have "\<exists>s2. (s2 = ?s1 \<or> start_service ?f ?s1 = Inr s2) \<and>
      route_customer (name ?f) s2 = Inr s'"
    by (auto simp: on_departure_def Let_def split: sum.splits if_splits)
  then obtain s2 where s2: "s2 = ?s1 \<or> start_service ?f ?s1 = Inr s2"
    and r: "route_customer (name ?f) s2 = Inr s'"
    by blast
  from s2 have "clock_inv T s2 \<and> nodes_all nonneg_node s2"
  proof
    assume "s2 = ?s1"
    with c1 n1 show ?thesis by simp
  next
    assume st: "start_service ?f ?s1 = Inr s2"
    from start_service_clock [OF st c1 nf] start_service_nodes [OF st] n1
    show ?thesis by (simp add: nodes_all_def)
  qed
  then show ?thesis using route_customer_clock [OF r] by blast
qed

lemma least_event_time:
  "time (least_event m es) \<le> time m \<and> (\<forall>e\<in>set es. time (least_event m es) \<le> time e)"
proof (induction es arbitrary: m)
  case Nil
  then show ?case by simp
next
  case (Cons e es)
  let ?m = "if event_less e m then e else m"
  have a: "time ?m \<le> time m" and b: "time ?m \<le> time e"
    by (auto simp: event_less_def)
  from Cons.IH [of ?m] have c: "time (least_event ?m es) \<le> time ?m"
    and d: "\<forall>x\<in>set es. time (least_event ?m es) \<le> time x" by simp_all
  from a b c d show ?case by auto
qed

lemma heappop_least_time:
  assumes "heappop evs = Inr (ev, rest)"
  shows "\<forall>e\<in>set evs. time ev \<le> time e"
proof (cases evs)
  case Nil
  with assms show ?thesis by (simp add: heappop_def)
next
  case (Cons e es)
  with assms have "ev = least_event e es" by (auto simp: heappop_def Let_def)
  with least_event_time [of e es] Cons show ?thesis by simp
qed

lemma sum_list_add_at:
  fixes xs :: "real list"
  shows "i < length xs \<Longrightarrow> sum_list (xs[i := xs ! i + d]) = sum_list xs + d"
proof (induction xs arbitrary: i)
  case Nil
  then show ?case by simp
next
  case (Cons x xs)
  then show ?case by (cases i) simp_all
qed

lemma py_index_Some: "py_index xs i = Some j \<Longrightarrow> j < length xs"
  by (auto simp: py_index_def Let_def split: if_splits)

lemma add_time_timed:
  assumes "add_time dt nd = Inr nd'" and "timed_node T nd"
  shows "timed_node (T + dt) nd'"
proof -
  from assms(1) obtain j where j: "py_index (tempo_estado nd) (node_n nd) = Some j"
    and nd': "nd' = nd\<lparr>tempo_estado := (tempo_estado nd)[j := tempo_estado nd ! j + dt]\<rparr>"
    by (auto simp: add_time_def split: option.splits)
  from py_index_Some [OF j] have "sum_list ((tempo_estado nd)[j := tempo_estado nd ! j + dt]) = sum_list (tempo_estado nd) + dt"
    by (rule sum_list_add_at)
  with assms(2) nd' show ?thesis by (simp add: timed_node_def nonneg_node_def)
qed

lemma update_time_stats_frame:
  assumes "update_time_stats t s = Inr s'"
  shows "rng s' = rng s \<and> events s' = events s \<and> sim_time s' = sim_time s \<and> last_update_time s' = t"
  using assms by (auto simp: update_time_stats_def Let_def split: if_splits sum.splits)

lemma update_time_stats_timed:
  assumes u: "update_time_stats t s = Inr s'" and n: "nodes_all (timed_node T) s"
    and l: "last_update_time s = T" and le: "T \<le> t"
  shows "nodes_all (timed_node t) s'"
proof (cases "t - last_update_time s > 0")
  case False
  with l le have "t = T" by simp
  moreover from False u have "nodes s' = nodes s" by (auto simp: update_time_stats_def)
  ultimately show ?thesis using n by (simp add: nodes_all_def)
next
  case True
  with u obtain ns where a: "add_time_all (t - T) (nodes s) = Inr ns" and ns: "nodes s' = ns"
    using l by (auto simp: update_time_stats_def Let_def split: sum.splits)
  show ?thesis
    unfolding nodes_all_def
  proof
    fix p' assume "p' \<in> set (nodes s')"
    with ns have "p' \<in> set ns" by simp
    from add_time_all_set [OF a this] obtain nd nd' where
      m: "(fst p', nd) \<in> set (nodes s)" and h: "add_time (t - T) nd = Inr nd'"
      and e: "p' = (fst p', nd')" by blast
    from m n have "timed_node T nd" by (auto simp: nodes_all_def)
    from add_time_timed [OF h this] have "timed_node t nd'" by simp
    with e show "timed_node t (snd p')" by (metis snd_conv)
  qed
qed

lemma timed_nonneg: "nodes_all (timed_node T) s \<Longrightarrow> nodes_all nonneg_node s"
  by (simp add: nodes_all_def timed_node_def)

lemma timed_admit: "timed_node T nd \<Longrightarrow> timed_node T (snd (admit nd))"
  by (simp add: timed_node_def nonneg_node_def admit_def)

lemma timed_finish: "timed_node T nd \<Longrightarrow> timed_node T (finish_service_one nd)"
  by (simp add: timed_node_def nonneg_node_def finish_service_one_def)

lemma step_clock:
  assumes st: "step s = Inr s'" and n: "nodes_all (timed_node T) s" and c: "clock_inv T s"
  shows "\<exists>T'. nodes_all (timed_node T') s' \<and> clock_inv T' s'"
proof -
  from step_Inr [OF st] obtain ev :: event and rest s1 where
    h: "heappop (events s) = Inr (ev, rest)"
    and u: "update_time_stats (time ev) (s\<lparr>events := rest\<rparr>) = Inr s1"
    and d: "etype ev = ARRIVAL \<and> on_arrival (node_name ev) (s1\<lparr>sim_time := time ev\<rparr>) = Inr s' \<or>
            etype ev = DEPARTURE \<and> on_departure (node_name ev) (s1\<lparr>sim_time := time ev\<rparr>) = Inr s'"
    by blast
  let ?t = "time ev"
  let ?s2 = "s1\<lparr>sim_time := ?t\<rparr>"
  from heappop_Inr [OF h] have ev: "ev \<in> set (events s)" and rest: "rest = remove1 ev (events s)"
    by simp_all
  from c ev have le: "T \<le> ?t" by (auto simp: clock_inv_def list_all_iff)
  from c have l: "last_update_time (s\<lparr>events := rest\<rparr>) = T" by (simp add: clock_inv_def)
  from n have "nodes_all (timed_node T) (s\<lparr>events := rest\<rparr>)" by (simp add: nodes_all_def)
  from update_time_stats_timed [OF u this l le] have n2: "nodes_all (timed_node ?t) ?s2"
    by (simp add: nodes_all_def)
  from heappop_least_time [OF h] rest have "\<forall>e\<in>set rest. ?t \<le> time e"
    by (auto dest: notin_set_remove1)
  with update_time_stats_frame [OF u] c have c2: "clock_inv ?t ?s2"
    by (simp add: clock_inv_def list_all_iff)
  from d have "nodes_all (timed_node ?t) s' \<and> clock_inv ?t s'"
  proof
    assume "etype ev = ARRIVAL \<and> on_arrival (node_name ev) ?s2 = Inr s'"
    then have a: "on_arrival (node_name ev) ?s2 = Inr s'" ..
    have "nodes_all (timed_node ?t) s'"
      using a n2 timed_admit by (rule on_arrival_nodes_all)
    with on_arrival_clock [OF a c2 timed_nonneg [OF n2]] show ?thesis by simp
  next
    assume "etype ev = DEPARTURE \<and> on_departure (node_name ev) ?s2 = Inr s'"
    then have a: "on_departure (node_name ev) ?s2 = Inr s'" ..
    have "nodes_all (timed_node ?t) s'"
      using a n2 timed_admit timed_finish by (rule on_departure_nodes_all)
    with on_departure_clock [OF a c2 timed_nonneg [OF n2]] show ?thesis by simp
  qed
  then show ?thesis ..
qed

lemma state_after_clock:
  assumes "state_after i s = Some s'" and "nodes_all (timed_node T) s" and "clock_inv T s"
  shows "\<exists>T'. nodes_all (timed_node T') s' \<and> clock_inv T' s'"
  using assms
proof (induction i arbitrary: s T)
  case 0
  then show ?case by auto
next
  case (Suc i)
  from Suc.prems(1) obtain s1 where st: "step s = Inr s1" and r: "state_after i s1 = Some s'"
    by (auto split: if_splits sum.splits)
  from step_clock [OF st Suc.prems(2,3)] obtain T1 where
    "nodes_all (timed_node T1) s1" and "clock_inv T1 s1" by blast
  from Suc.IH [OF r this] show ?case .
qed

lemma first_arrivals_clock:
  assumes "first_arrivals ns s = Inr s'" and "clock_inv 0 s"
    and "\<forall>p\<in>set ns. nonneg_node (snd p)"
  shows "clock_inv 0 s'"
  using assms
proof (induction ns arbitrary: s)
  case Nil
  then show ?case by simp
next
  case (Cons a ns)
  obtain nm nd where a: "a = (nm, nd)" by (cases a)
  from Cons.prems(3) have rest: "\<forall>p\<in>set ns. nonneg_node (snd p)" by simp
  show ?case
  proof (cases "arrival_sampler nd")
    case None
    with Cons.prems(1) a have "first_arrivals ns s = Inr s'" by simp
    from Cons.IH [OF this Cons.prems(2) rest] show ?thesis .
  next
    case (Some rg)
    with Cons.prems(1) a obtain t s1 where sm: "sample rg s = Inr (t, s1)"
      and r: "first_arrivals ns (schedule t ARRIVAL nm s1) = Inr s'"
      by (auto split: sum.splits)
    from Cons.prems(3) a Some have "nonneg_sampler rg" by (simp add: nonneg_node_def)
    from sample_clock [OF sm Cons.prems(2) this] have t: "0 \<le> t" and c1: "clock_inv 0 s1"
      by simp_all
    from clock_inv_schedule [OF c1 t] have "clock_inv 0 (schedule t ARRIVAL nm s1)" .
    from Cons.IH [OF r this rest] show ?thesis .
  qed
qed

lemma build_node_nonneg:
  assumes "build_node nm p = Inr nd"
    and "0 \<le> minService p \<and> 0 \<le> maxService p \<and>
         (case minArrival p of None \<Rightarrow> True | Some a \<Rightarrow> 0 \<le> a) \<and>
         (case maxArrival p of None \<Rightarrow> True | Some a \<Rightarrow> 0 \<le> a)"
  shows "timed_node 0 nd"
  using assms
  by (auto simp: build_node_def Node_def timed_node_def nonneg_node_def nonneg_sampler_def Let_def
      sum_list_replicate split: sum.splits option.splits)

lemma build_nodes_timed:
  assumes "build_nodes qs acc = Inr ns" and "\<forall>p\<in>set acc. timed_node 0 (snd p)"
    and "list_all (\<lambda>(nm, p). 0 \<le> minService p \<and> 0 \<le> maxService p \<and>
                 (case minArrival p of None \<Rightarrow> True | Some a \<Rightarrow> 0 \<le> a) \<and>
                 (case maxArrival p of None \<Rightarrow> True | Some a \<Rightarrow> 0 \<le> a)) qs"
  shows "\<forall>p\<in>set ns. timed_node 0 (snd p)"
  using assms
proof (induction qs arbitrary: acc)
  case Nil
  then show ?case by simp
next
  case (Cons q qs)
  obtain nm p where q: "q = (nm, p)" by (cases q)
  from Cons.prems(1) q obtain nd where b: "build_node nm p = Inr nd"
    and r: "build_nodes qs (AList.update nm nd acc) = Inr ns"
    by (auto split: sum.splits)
  from Cons.prems(3) q have "timed_node 0 nd" by (intro build_node_nonneg [OF b]) simp
  with Cons.prems(2) have "\<forall>p\<in>set (AList.update nm nd acc). timed_node 0 (snd p)"
    by (auto dest!: set_update_cases)
  moreover from Cons.prems(3) have "list_all (\<lambda>(nm, p). 0 \<le> minService p \<and> 0 \<le> maxService p \<and>
                 (case minArrival p of None \<Rightarrow> True | Some a \<Rightarrow> 0 \<le> a) \<and>
                 (case maxArrival p of None \<Rightarrow> True | Some a \<Rightarrow> 0 \<le> a)) qs" by simp
  ultimately show ?case using Cons.IH [OF r] by blast
qed

lemma NetworkSimulator_clock:
  assumes "NetworkSimulator cfg = Inr s" and "nonneg_ranges cfg" and "unit_deviates (SimulationRNG cfg)"
  shows "nodes_all (timed_node 0) s \<and> clock_inv 0 s"
proof -
  from assms(1) obtain ns where b: "build_nodes (queues cfg) [] = Inr ns" and n: "nodes s = ns"
    and r: "rng s = SimulationRNG cfg" and e: "events s = []" and t: "sim_time s = 0"
    and l: "last_update_time s = 0"
    by (auto simp: NetworkSimulator_def split: sum.splits)
  from assms(2) have "\<forall>p\<in>set ns. timed_node 0 (snd p)"
    by (intro build_nodes_timed [OF b]) (simp_all add: nonneg_ranges_def)
  with n r e t l assms(3) show ?thesis by (simp add: nodes_all_def clock_inv_def)
qed

lemma run_state_clock:
  assumes "run_state fuel s = Some (Inr s')" and "nodes_all (timed_node 0) s" and "clock_inv 0 s"
  shows "nodes_all (timed_node (sim_time s')) s'"
proof -
  from run_state_Inr [OF assms(1)] obtain s0 i s1 where
    f: "first_arrivals (nodes s) s = Inr s0" and a: "state_after i s0 = Some s1"
    and u: "update_time_stats (sim_time s1) s1 = Inr s'" by blast
  from assms(2) have "\<forall>p\<in>set (nodes s). nonneg_node (snd p)"
    by (simp add: nodes_all_def timed_node_def)
  from first_arrivals_clock [OF f assms(3) this] have c0: "clock_inv 0 s0" .
  from first_arrivals_nodes [OF f] assms(2) have n0: "nodes_all (timed_node 0) s0"
    by (simp add: nodes_all_def)
  from state_after_clock [OF a n0 c0] obtain T where n1: "nodes_all (timed_node T) s1"
    and c1: "clock_inv T s1" by blast
  from c1 have t: "sim_time s1 = T" and l: "last_update_time s1 = T" by (simp_all add: clock_inv_def)
  from t have le: "T \<le> sim_time s1" by simp
  from update_time_stats_timed [OF u n1 l le] update_time_stats_frame [OF u]
  show ?thesis by simp
qed

lemma add_time_all_nth:
  assumes "add_time_all dt ns = Inr ns'"
  shows "length ns' = length ns \<and>
         (\<forall>i<length ns. fst (ns' ! i) = fst (ns ! i) \<and> add_time dt (snd (ns ! i)) = Inr (snd (ns' ! i)))"
  using assms
proof (induction ns arbitrary: ns')
  case Nil
  then show ?case by simp
next
  case (Cons a ns)
  obtain nm nd where a: "a = (nm, nd)" by (cases a)
  from Cons.prems a obtain nd1 rest' where
    h: "add_time dt nd = Inr nd1" and t: "add_time_all dt ns = Inr rest'" and e: "ns' = (nm, nd1) # rest'"
    by (auto split: sum.splits)
  from Cons.IH [OF t] have l: "length rest' = length ns"
    and r: "\<forall>i<length ns. fst (rest' ! i) = fst (ns ! i) \<and> add_time dt (snd (ns ! i)) = Inr (snd (rest' ! i))"
    by simp_all
  show ?case
  proof (intro conjI allI impI)
    show "length ns' = length (a # ns)" using e l by simp
  next
    fix i assume "i < length (a # ns)"
    then show "fst (ns' ! i) = fst ((a # ns) ! i)" using e a r by (cases i) auto
  next
    fix i assume "i < length (a # ns)"
    then show "add_time dt (snd ((a # ns) ! i)) = Inr (snd (ns' ! i))" using e a h r by (cases i) auto
  qed
qed

lemma update_time_stats_every_node:
  assumes "update_time_stats t s = Inr s'" and "last_update_time s < t"
  shows "length (nodes s') = length (nodes s) \<and>
         (\<forall>i<length (nodes s). fst (nodes s' ! i) = fst (nodes s ! i) \<and>
            add_time (t - last_update_time s) (snd (nodes s ! i)) = Inr (snd (nodes s' ! i)))"
proof -
  from assms obtain ns where a: "add_time_all (t - last_update_time s) (nodes s) = Inr ns"
    and ns: "nodes s' = ns"
    by (auto simp: update_time_stats_def Let_def split: sum.splits)
  from add_time_all_nth [OF a] ns show ?thesis by simp
qed

lemma run_state_final_update:
  assumes "run_state fuel s = Some (Inr s')"
  shows "last_update_time s' = sim_time s'"
proof -
  from run_state_Inr [OF assms] obtain s1 where
    u: "update_time_stats (sim_time s1) s1 = Inr s'" by blast
  from update_time_stats_frame [OF u] show ?thesis by simp
qed

text \<open>
  Claim C1, amended. For every completed run in which no sampled duration is negative
  (the bounds of every service and arrival range are at least zero and every deviate of
  the source lies in the unit interval), and for every node, the sum of the node's
  time-in-state vector equals the final global simulated time. The reason is the one the
  claim gives: a statistics update to a later time adds the elapsed interval to the entry
  \<open>n\<close> of the time-in-state vector of every node of the system, and a completed run ends
  with a statistics update to the current clock time.
\<close>

theorem time_in_state_sums_to_clock:
  "(nonneg_ranges cfg \<and> unit_deviates (SimulationRNG cfg) \<and>
    simulate fuel cfg = Some (Inr res) \<and> (nm, q) \<in> set (filas res) \<longrightarrow>
      sum_list (res_tempo_estado q) = tempo_global res) \<and>
   (update_time_stats t s = Inr s' \<and> last_update_time s < t \<longrightarrow>
      length (nodes s') = length (nodes s) \<and>
      (\<forall>i<length (nodes s). fst (nodes s' ! i) = fst (nodes s ! i) \<and>
         add_time (t - last_update_time s) (snd (nodes s ! i)) = Inr (snd (nodes s' ! i)))) \<and>
   (run_state fuel s = Some (Inr s') \<longrightarrow> last_update_time s' = sim_time s')"
proof -
  have a: "sum_list (res_tempo_estado q) = tempo_global res"
    if h: "nonneg_ranges cfg \<and> unit_deviates (SimulationRNG cfg) \<and>
           simulate fuel cfg = Some (Inr res) \<and> (nm, q) \<in> set (filas res)"
  proof -
    from h obtain s0 where c: "NetworkSimulator cfg = Inr s0"
      and r0: "run fuel s0 = Some (Inr res)"
      by (auto simp: simulate_def split: sum.splits)
    from r0 obtain z where z: "run_state fuel s0 = Some z" and m: "map_sum id get_results z = Inr res"
      by (auto simp: run_def)
    from m obtain sf where "z = Inr sf" and res: "res = get_results sf"
      by (cases z) auto
    with z have r: "run_state fuel s0 = Some (Inr sf)" by simp
    from h have "nonneg_ranges cfg" and "unit_deviates (SimulationRNG cfg)" by simp_all
    from NetworkSimulator_clock [OF c this] have "nodes_all (timed_node 0) s0" "clock_inv 0 s0"
      by simp_all
    from run_state_clock [OF r this] have n: "nodes_all (timed_node (sim_time sf)) sf" .
    from h res obtain nd where m: "(nm, nd) \<in> set (nodes sf)" and q: "q = fila_of nd"
      by (auto simp: get_results_def)
    from n m have "sum_list (tempo_estado nd) = sim_time sf"
      by (auto simp: nodes_all_def timed_node_def)
    with q res show ?thesis by (simp add: fila_of_def get_results_def Let_def)
  qed
  have b: "update_time_stats t s = Inr s' \<and> last_update_time s < t \<longrightarrow>
      length (nodes s') = length (nodes s) \<and>
      (\<forall>i<length (nodes s). fst (nodes s' ! i) = fst (nodes s ! i) \<and>
         add_time (t - last_update_time s) (snd (nodes s ! i)) = Inr (snd (nodes s' ! i)))"
    using update_time_stats_every_node by blast
  have c: "run_state fuel s = Some (Inr s') \<longrightarrow> last_update_time s' = sim_time s'"
    using run_state_final_update by blast
  from a b c show ?thesis by blast
qed

text \<open>
  Claim C1, as stated, fails: the run of a configuration with the arrival range
  \<open>[-1, -1]\<close> completes with the final global time \<open>- 1\<close>, while the time-in-state
  vector of its node is \<open>[0, 0]\<close>, of sum 0. The first arrival is popped at the time
  \<open>- 1\<close>; the elapsed interval is negative, and \<^verbatim>\<open>update_time_stats\<close> adds an
  interval only when it is positive.
\<close>

theorem backwards_clock_sum_differs:
  "simulate 1 backwards_cfg =
     Some (Inr \<lparr>tempo_global = - 1, randoms_usados = 3, chegadas_totais = 1,
                filas = [(''Q1'', \<lparr>servidores = 1, capacidade = 1, res_atendidos = 0,
                                    res_perdas = 0, res_tempo_estado = [0, 0],
                                    prob_estado = [0, 0]\<rparr>)]\<rparr>)"
  by (simp add: backwards_cfg_def sim_defs Let_def eval_nat_numeral)

theorem time_in_state_sums_to_clock_witness:
  "nonneg_ranges (scenario [0, 0, 0, 0, 0, 0, 0]) \<and>
   unit_deviates (SimulationRNG (scenario [0, 0, 0, 0, 0, 0, 0])) \<and>
   simulate 5 (scenario [0, 0, 0, 0, 0, 0, 0]) = Some (Inr scenario_results) \<and>
   (''Q1'', scenario_fila) \<in> set (filas scenario_results) \<and>
   sum_list (res_tempo_estado scenario_fila) = tempo_global scenario_results \<and>
   tempo_global scenario_results = 3 \<and>
   update_time_stats 1 scenario_armed =
     Inr (scenario_armed\<lparr>nodes := [(''Q1'', scenario_node 0 [1, 0] 0 0)], last_update_time := 1\<rparr>) \<and>
   last_update_time scenario_armed < 1 \<and>
   add_time (1 - last_update_time scenario_armed) (scenario_node 0 [0, 0] 0 0) =
     Inr (scenario_node 0 [1, 0] 0 0) \<and>
   run_state 5 scenario_start = Some (Inr scenario_final) \<and>
   last_update_time scenario_final = sim_time scenario_final"
proof -
  let ?c = "scenario [0, 0, 0, 0, 0, 0, 0]"
  let ?s' = "scenario_armed\<lparr>nodes := [(''Q1'', scenario_node 0 [1, 0] 0 0)], last_update_time := 1\<rparr>"
  have a: "nonneg_ranges ?c"
    by (simp add: nonneg_ranges_def scenario_def)
  have b: "unit_deviates (SimulationRNG ?c)"
    by (simp add: unit_deviates_def SimulationRNG_def scenario_def)
  have c: "simulate 5 ?c = Some (Inr scenario_results)"
    by (simp add: scenario_results_def scenario_fila_def scenario_def sim_defs eval_nat_numeral)
  have d: "(''Q1'', scenario_fila) \<in> set (filas scenario_results)"
    by (simp add: scenario_results_def)
  have e: "tempo_global scenario_results = 3" by (simp add: scenario_results_def)
  have u: "update_time_stats 1 scenario_armed = Inr ?s'"
    by (simp add: scenario_armed_def scenario_node_def update_time_stats_def add_time_def
        py_index_def)
  have l: "last_update_time scenario_armed < 1" by (simp add: scenario_armed_def)
  have n: "nodes scenario_armed = [(''Q1'', scenario_node 0 [0, 0] 0 0)]"
    by (simp add: scenario_armed_def)
  note t1 = time_in_state_sums_to_clock [of ?c 5 scenario_results "''Q1''" scenario_fila
      1 scenario_armed ?s']
  note t2 = time_in_state_sums_to_clock [of undefined 5 undefined undefined undefined
      undefined scenario_start scenario_final]
  from t1 a b c d have f: "sum_list (res_tempo_estado scenario_fila) = tempo_global scenario_results"
    by blast
  from t1 u l have "\<forall>i<length (nodes scenario_armed).
      add_time (1 - last_update_time scenario_armed) (snd (nodes scenario_armed ! i)) =
        Inr (snd (nodes ?s' ! i))" by blast
  then have "add_time (1 - last_update_time scenario_armed) (snd (nodes scenario_armed ! 0)) =
        Inr (snd (nodes ?s' ! 0))" using n by simp
  with n have g: "add_time (1 - last_update_time scenario_armed) (scenario_node 0 [0, 0] 0 0) =
     Inr (scenario_node 0 [1, 0] 0 0)" by simp
  from t2 scenario_run_state have h: "last_update_time scenario_final = sim_time scenario_final"
    by blast
  from a b c d e f u l g h scenario_run_state show ?thesis by simp
qed

subsection \<open>Occupancy and capacity\<close>

lemma pending_nonneg: "0 \<le> pending key evs"
  by (simp add: pending_def)

lemma pending_append:
  "pending key (evs @ [e]) = pending key evs + (if etype e = DEPARTURE \<and> node_name e = key then 1 else 0)"
  by (simp add: pending_def)

lemma length_filter_remove1:
  "x \<in> set xs \<Longrightarrow> length (filter P xs) = length (filter P (remove1 x xs)) + (if P x then 1 else 0)"
  by (induction xs) auto

lemma pending_remove1:
  assumes "e \<in> set evs"
  shows "pending key evs = pending key (remove1 e evs) + (if etype e = DEPARTURE \<and> node_name e = key then 1 else 0)"
  using length_filter_remove1 [OF assms, of "\<lambda>e. etype e = DEPARTURE \<and> node_name e = key"]
  by (simp add: pending_def)

lemma start_service_events:
  assumes "start_service fila s = Inr s'"
  shows "nodes s' = nodes s \<and>
         pending key (events s') = pending key (events s) + (if name fila = key then 1 else 0)"
proof -
  from start_service_Inr [OF assms] obtain v r' where
    "s' = schedule (sim_time s + (fst (service_sampler fila) +
                   (snd (service_sampler fila) - fst (service_sampler fila)) * v))
                 DEPARTURE (name fila) (s\<lparr>rng := r'\<rparr>)" by blast
  then show ?thesis by (simp add: pending_append)
qed

lemma capacity_inv_update:
  assumes inv: "capacity_inv extra s" and f: "map_of (nodes s) key = Some fila"
    and nd: "name nd = key" and occ: "occupied (pending key (events s) + extra' key) nd"
    and ex: "\<And>k. k \<noteq> key \<Longrightarrow> extra' k = extra k"
  shows "capacity_inv extra' (s\<lparr>nodes := AList.update key nd (nodes s)\<rparr>)"
  unfolding capacity_inv_def
proof (intro allI impI)
  fix k2 nd2
  assume m: "map_of (nodes (s\<lparr>nodes := AList.update key nd (nodes s)\<rparr>)) k2 = Some nd2"
  show "name nd2 = k2 \<and>
        occupied (pending k2 (events (s\<lparr>nodes := AList.update key nd (nodes s)\<rparr>)) + extra' k2) nd2"
  proof (cases "k2 = key")
    case True
    with m have "nd2 = nd" by (simp add: update_conv')
    with True nd occ show ?thesis by simp
  next
    case False
    with m have "map_of (nodes s) k2 = Some nd2" by (simp add: update_conv')
    with inv have "name nd2 = k2 \<and> occupied (pending k2 (events s) + extra k2) nd2"
      by (simp add: capacity_inv_def)
    with ex [OF False] show ?thesis by simp
  qed
qed

lemma capacity_inv_started:
  assumes inv: "capacity_inv (\<lambda>k. if k = name fila then 1 else 0) s"
    and st: "start_service fila s = Inr s'"
  shows "capacity_inv (\<lambda>k. 0) s'"
  unfolding capacity_inv_def
proof (intro allI impI)
  fix k2 nd2
  assume m: "map_of (nodes s') k2 = Some nd2"
  from start_service_events [OF st, of k2] have n: "nodes s' = nodes s"
    and p: "pending k2 (events s') = pending k2 (events s) + (if name fila = k2 then 1 else 0)"
    by simp_all
  from m n inv have "name nd2 = k2 \<and> occupied (pending k2 (events s) + (if k2 = name fila then 1 else 0)) nd2"
    by (simp add: capacity_inv_def)
  with p show "name nd2 = k2 \<and> occupied (pending k2 (events s') + 0) nd2"
    by (cases "k2 = name fila") auto
qed

lemma admit_and_start_capacity:
  assumes a: "admit_and_start key s = Inr s'" and inv: "capacity_inv (\<lambda>k. 0) s"
  shows "capacity_inv (\<lambda>k. 0) s'"
proof -
  from a obtain fila where f: "map_of (nodes s) key = Some fila"
    by (auto simp: admit_and_start_def split: option.splits)
  from inv f have nm: "name fila = key" and occ: "occupied (pending key (events s)) fila"
    by (simp_all add: capacity_inv_def)
  let ?p = "pending key (events s)"
  let ?f = "snd (admit fila)"
  let ?s1 = "s\<lparr>nodes := AList.update key ?f (nodes s)\<rparr>"
  have nm': "name ?f = key" using nm by (simp add: admit_def)
  show ?thesis
  proof (cases "fst (admit fila) \<and> node_n ?f \<le> node_c ?f")
    case False
    with a f have s': "s' = ?s1"
      by (auto simp: admit_and_start_def Let_def split: prod.splits)
    from occ have "occupied (?p + 0) ?f"
      by (auto simp: occupied_def admit_def)
    from capacity_inv_update [OF inv f nm' this] s' show ?thesis by simp
  next
    case True
    with a f have st: "start_service ?f ?s1 = Inr s'"
      by (auto simp: admit_and_start_def Let_def split: prod.splits)
    from True occ have "occupied (?p + 1) ?f"
      by (auto simp: occupied_def admit_def split: if_splits)
    then have "occupied (?p + (if key = name ?f then 1 else 0)) ?f" using nm' by simp
    from capacity_inv_update [where extra' = "\<lambda>k. if k = name ?f then 1 else 0", OF inv f nm' this]
    have "capacity_inv (\<lambda>k. if k = name ?f then 1 else 0) ?s1" using nm' by simp
    from capacity_inv_started [OF this st] show ?thesis .
  qed
qed

lemma capacity_inv_rng [simp]: "capacity_inv extra (s\<lparr>rng := r\<rparr>) = capacity_inv extra s"
  by (simp add: capacity_inv_def)

lemma capacity_inv_count [simp]:
  "capacity_inv extra (s\<lparr>total_arrivals_count := k\<rparr>) = capacity_inv extra s"
  by (simp add: capacity_inv_def)

lemma capacity_inv_time [simp]: "capacity_inv extra (s\<lparr>sim_time := t\<rparr>) = capacity_inv extra s"
  by (simp add: capacity_inv_def)

lemma capacity_inv_arrival [simp]:
  "capacity_inv extra (schedule t ARRIVAL nm s) = capacity_inv extra s"
  by (simp add: capacity_inv_def pending_append)

lemma route_customer_capacity:
  assumes "route_customer nm s = Inr s'" and "capacity_inv (\<lambda>k. 0) s"
  shows "capacity_inv (\<lambda>k. 0) s'"
proof -
  from assms(1) have "\<exists>d s1. pick_destination nm s = Inr (d, s1) \<and>
      (s' = s1 \<or> (\<exists>dn. admit_and_start dn s1 = Inr s'))"
    by (auto simp: route_customer_def split: sum.splits option.splits if_splits)
  then obtain d s1 where pd: "pick_destination nm s = Inr (d, s1)"
    and r: "s' = s1 \<or> (\<exists>dn. admit_and_start dn s1 = Inr s')"
    by blast
  from pick_destination_Inr [OF pd] assms(2) have c1: "capacity_inv (\<lambda>k. 0) s1" by auto
  from r show ?thesis
  proof
    assume "s' = s1"
    with c1 show ?thesis by simp
  next
    assume "\<exists>dn. admit_and_start dn s1 = Inr s'"
    then obtain dn where "admit_and_start dn s1 = Inr s'" ..
    from admit_and_start_capacity [OF this c1] show ?thesis .
  qed
qed

lemma on_arrival_capacity:
  assumes "on_arrival key s = Inr s'" and "capacity_inv (\<lambda>k. 0) s"
  shows "capacity_inv (\<lambda>k. 0) s'"
proof -
  from assms(1) obtain fila where f: "map_of (nodes s) key = Some fila"
    by (auto simp: on_arrival_def split: option.splits)
  let ?s1 = "s\<lparr>total_arrivals_count := total_arrivals_count s + 1\<rparr>"
  have c1: "capacity_inv (\<lambda>k. 0) ?s1" using assms(2) by simp
  show ?thesis
  proof (cases "arrival_sampler fila")
    case None
    with assms(1) f have "admit_and_start key ?s1 = Inr s'" by (simp add: on_arrival_def)
    from admit_and_start_capacity [OF this c1] show ?thesis .
  next
    case (Some rg)
    with assms(1) f obtain x s2 where sm: "sample rg ?s1 = Inr (x, s2)"
      and a: "admit_and_start key (schedule (sim_time s2 + x) ARRIVAL (name fila) s2) = Inr s'"
      by (auto simp: on_arrival_def split: sum.splits)
    from sample_Inr [OF sm] c1 have "capacity_inv (\<lambda>k. 0) s2" by auto
    then have "capacity_inv (\<lambda>k. 0) (schedule (sim_time s2 + x) ARRIVAL (name fila) s2)" by simp
    from admit_and_start_capacity [OF a this] show ?thesis .
  qed
qed

lemma on_departure_capacity:
  assumes d: "on_departure key s = Inr s'"
    and inv: "capacity_inv (\<lambda>k. if k = key then 1 else 0) s"
  shows "capacity_inv (\<lambda>k. 0) s'"
proof -
  from d obtain fila where f: "map_of (nodes s) key = Some fila"
    by (auto simp: on_departure_def split: option.splits)
  from inv f have "name fila = key \<and>
      occupied (pending key (events s) + (if key = key then 1 else 0)) fila"
    unfolding capacity_inv_def by blast
  then have nm: "name fila = key" and occ: "occupied (pending key (events s) + 1) fila"
    by simp_all
  let ?p = "pending key (events s)"
  let ?f = "finish_service_one fila"
  let ?s1 = "s\<lparr>nodes := AList.update key ?f (nodes s)\<rparr>"
  have nm': "name ?f = key" using nm by (simp add: finish_service_one_def)
  have p0: "0 \<le> ?p" by (rule pending_nonneg)
  from d f have "\<exists>s2. (\<not> node_n ?f \<ge> node_c ?f \<and> s2 = ?s1 \<or>
        node_n ?f \<ge> node_c ?f \<and> start_service ?f ?s1 = Inr s2) \<and>
      route_customer (name ?f) s2 = Inr s'"
    by (auto simp: on_departure_def Let_def split: sum.splits if_splits)
  then obtain s2 where s2: "\<not> node_n ?f \<ge> node_c ?f \<and> s2 = ?s1 \<or>
        node_n ?f \<ge> node_c ?f \<and> start_service ?f ?s1 = Inr s2"
    and r: "route_customer (name ?f) s2 = Inr s'"
    by blast
  from s2 have "capacity_inv (\<lambda>k. 0) s2"
  proof
    assume h: "\<not> node_n ?f \<ge> node_c ?f \<and> s2 = ?s1"
    from occ have "occupied (?p + 0) ?f"
      by (auto simp: occupied_def finish_service_one_def)
    from capacity_inv_update [where extra' = "\<lambda>k. 0", OF inv f nm' this] h
    show ?thesis by simp
  next
    assume h: "node_n ?f \<ge> node_c ?f \<and> start_service ?f ?s1 = Inr s2"
    then have st: "start_service ?f ?s1 = Inr s2" ..
    from occ h p0 have "occupied (?p + 1) ?f"
      by (auto simp: occupied_def finish_service_one_def)
    then have "occupied (?p + (if key = name ?f then 1 else 0)) ?f" using nm' by simp
    from capacity_inv_update [where extra' = "\<lambda>k. if k = name ?f then 1 else 0", OF inv f nm' this]
    have "capacity_inv (\<lambda>k. if k = name ?f then 1 else 0) ?s1" using nm' by simp
    from capacity_inv_started [OF this st] show ?thesis .
  qed
  from route_customer_capacity [OF r this] show ?thesis .
qed

lemma add_time_all_map_of:
  assumes "add_time_all dt ns = Inr ns'" and "map_of ns' key = Some nd'"
  shows "\<exists>nd. map_of ns key = Some nd \<and> add_time dt nd = Inr nd'"
  using assms
proof (induction ns arbitrary: ns')
  case Nil
  then show ?case by simp
next
  case (Cons a ns)
  obtain nm nd where a: "a = (nm, nd)" by (cases a)
  from Cons.prems(1) a obtain nd1 rest' where
    h: "add_time dt nd = Inr nd1" and t: "add_time_all dt ns = Inr rest'" and e: "ns' = (nm, nd1) # rest'"
    by (auto split: sum.splits)
  show ?case
  proof (cases "key = nm")
    case True
    with Cons.prems(2) e have "nd' = nd1" by simp
    with True a h show ?thesis by simp
  next
    case False
    with Cons.prems(2) e have "map_of rest' key = Some nd'" by simp
    from Cons.IH [OF t this] False a show ?thesis by simp
  qed
qed

lemma add_time_all_keys: "add_time_all dt ns = Inr ns' \<Longrightarrow> map fst ns' = map fst ns"
proof (induction ns arbitrary: ns')
  case Nil
  then show ?case by simp
next
  case (Cons a ns)
  obtain nm nd where a: "a = (nm, nd)" by (cases a)
  from Cons.prems a obtain nd1 rest' where
    t: "add_time_all dt ns = Inr rest'" and e: "ns' = (nm, nd1) # rest'"
    by (auto split: sum.splits)
  from Cons.IH [OF t] e a show ?case by simp
qed

lemma add_time_occupied:
  assumes "add_time dt nd = Inr nd'"
  shows "name nd' = name nd \<and> occupied p nd' = occupied p nd"
  using assms by (auto simp: add_time_def occupied_def split: option.splits)

lemma update_time_stats_capacity:
  assumes u: "update_time_stats t s = Inr s'" and inv: "capacity_inv extra s"
  shows "capacity_inv extra s'"
proof (cases "t - last_update_time s > 0")
  case False
  with u have "s' = s\<lparr>last_update_time := t\<rparr>" by (auto simp: update_time_stats_def)
  with inv show ?thesis by (simp add: capacity_inv_def)
next
  case True
  with u obtain ns where a: "add_time_all (t - last_update_time s) (nodes s) = Inr ns"
    and ns: "nodes s' = ns" and ev: "events s' = events s"
    by (auto simp: update_time_stats_def Let_def split: sum.splits)
  show ?thesis
    unfolding capacity_inv_def
  proof (intro allI impI)
    fix key nd'
    assume "map_of (nodes s') key = Some nd'"
    with ns have "map_of ns key = Some nd'" by simp
    from add_time_all_map_of [OF a this] obtain nd where
      m: "map_of (nodes s) key = Some nd" and h: "add_time (t - last_update_time s) nd = Inr nd'"
      by blast
    from inv m have "name nd = key \<and> occupied (pending key (events s) + extra key) nd"
      by (simp add: capacity_inv_def)
    with add_time_occupied [OF h] ev
    show "name nd' = key \<and> occupied (pending key (events s') + extra key) nd'" by simp
  qed
qed

lemma update_time_stats_keys:
  "update_time_stats t s = Inr s' \<Longrightarrow> map fst (nodes s') = map fst (nodes s)"
  by (auto simp: update_time_stats_def Let_def split: if_splits sum.splits dest: add_time_all_keys)

lemma step_capacity:
  assumes st: "step s = Inr s'" and inv: "capacity_inv (\<lambda>k. 0) s"
  shows "capacity_inv (\<lambda>k. 0) s'"
proof -
  from step_Inr [OF st] obtain ev :: event and rest s1 where
    h: "heappop (events s) = Inr (ev, rest)"
    and u: "update_time_stats (time ev) (s\<lparr>events := rest\<rparr>) = Inr s1"
    and d: "etype ev = ARRIVAL \<and> on_arrival (node_name ev) (s1\<lparr>sim_time := time ev\<rparr>) = Inr s' \<or>
            etype ev = DEPARTURE \<and> on_departure (node_name ev) (s1\<lparr>sim_time := time ev\<rparr>) = Inr s'"
    by blast
  let ?extra = "\<lambda>k. if etype ev = DEPARTURE \<and> node_name ev = k then 1 else (0::int)"
  from heappop_Inr [OF h] have ev: "ev \<in> set (events s)" and rest: "rest = remove1 ev (events s)"
    by simp_all
  have "capacity_inv ?extra (s\<lparr>events := rest\<rparr>)"
    unfolding capacity_inv_def
  proof (intro allI impI)
    fix key nd
    assume "map_of (nodes (s\<lparr>events := rest\<rparr>)) key = Some nd"
    then have "map_of (nodes s) key = Some nd" by simp
    with inv have "name nd = key \<and> occupied (pending key (events s)) nd"
      by (simp add: capacity_inv_def)
    with pending_remove1 [OF ev, of key] rest
    show "name nd = key \<and> occupied (pending key (events (s\<lparr>events := rest\<rparr>)) + ?extra key) nd"
      by simp
  qed
  from update_time_stats_capacity [OF u this]
  have c2: "capacity_inv ?extra (s1\<lparr>sim_time := time ev\<rparr>)" by simp
  from d show ?thesis
  proof
    assume a: "etype ev = ARRIVAL \<and> on_arrival (node_name ev) (s1\<lparr>sim_time := time ev\<rparr>) = Inr s'"
    with c2 have "capacity_inv (\<lambda>k. 0) (s1\<lparr>sim_time := time ev\<rparr>)" by simp
    with a show ?thesis using on_arrival_capacity by blast
  next
    assume a: "etype ev = DEPARTURE \<and> on_departure (node_name ev) (s1\<lparr>sim_time := time ev\<rparr>) = Inr s'"
    with c2 have "capacity_inv (\<lambda>k. if k = node_name ev then 1 else 0) (s1\<lparr>sim_time := time ev\<rparr>)"
      by (simp add: eq_commute)
    with a show ?thesis using on_departure_capacity by blast
  qed
qed

lemma update_existing_keys:
  "map_of al k = Some v \<Longrightarrow> map fst (AList.update k v' al) = map fst al"
  by (auto simp: update_keys dest: map_of_SomeD intro: rev_image_eqI)

lemma admit_and_start_keys:
  assumes "admit_and_start key s = Inr s'"
  shows "map fst (nodes s') = map fst (nodes s)"
proof -
  from assms obtain fila where f: "map_of (nodes s) key = Some fila"
    by (auto simp: admit_and_start_def split: option.splits)
  let ?s1 = "s\<lparr>nodes := AList.update key (snd (admit fila)) (nodes s)\<rparr>"
  from assms f have "s' = ?s1 \<or> start_service (snd (admit fila)) ?s1 = Inr s'"
    by (auto simp: admit_and_start_def Let_def split: prod.splits if_splits)
  then show ?thesis
    using update_existing_keys [OF f] by (auto dest: start_service_nodes)
qed

lemma route_customer_keys:
  assumes "route_customer nm s = Inr s'"
  shows "map fst (nodes s') = map fst (nodes s)"
proof -
  from assms have "\<exists>d s1. pick_destination nm s = Inr (d, s1) \<and>
      (s' = s1 \<or> (\<exists>dn. admit_and_start dn s1 = Inr s'))"
    by (auto simp: route_customer_def split: sum.splits option.splits if_splits)
  then obtain d s1 where pd: "pick_destination nm s = Inr (d, s1)"
    and r: "s' = s1 \<or> (\<exists>dn. admit_and_start dn s1 = Inr s')"
    by blast
  from r pick_destination_nodes [OF pd] show ?thesis
    by (auto dest: admit_and_start_keys)
qed

lemma on_arrival_keys:
  assumes "on_arrival key s = Inr s'"
  shows "map fst (nodes s') = map fst (nodes s)"
proof -
  from on_arrival_Inr [OF assms] obtain s3 where
    "nodes s3 = nodes s" and "admit_and_start key s3 = Inr s'" by blast
  then show ?thesis by (auto dest: admit_and_start_keys)
qed

lemma on_departure_keys:
  assumes "on_departure key s = Inr s'"
  shows "map fst (nodes s') = map fst (nodes s)"
proof -
  from assms obtain fila where f: "map_of (nodes s) key = Some fila"
    by (auto simp: on_departure_def split: option.splits)
  let ?f = "finish_service_one fila"
  let ?s1 = "s\<lparr>nodes := AList.update key ?f (nodes s)\<rparr>"
  from assms f have "\<exists>s2. (s2 = ?s1 \<or> start_service ?f ?s1 = Inr s2) \<and>
      route_customer (name ?f) s2 = Inr s'"
    by (auto simp: on_departure_def Let_def split: sum.splits if_splits)
  then obtain s2 where s2: "s2 = ?s1 \<or> start_service ?f ?s1 = Inr s2"
    and r: "route_customer (name ?f) s2 = Inr s'"
    by blast
  from s2 have "map fst (nodes s2) = map fst (nodes s)"
    using update_existing_keys [OF f] by (auto dest: start_service_nodes)
  with route_customer_keys [OF r] show ?thesis by simp
qed

lemma step_keys:
  assumes "step s = Inr s'"
  shows "map fst (nodes s') = map fst (nodes s)"
proof -
  from step_Inr [OF assms] obtain ev :: event and rest s1 where
    u: "update_time_stats (time ev) (s\<lparr>events := rest\<rparr>) = Inr s1"
    and d: "etype ev = ARRIVAL \<and> on_arrival (node_name ev) (s1\<lparr>sim_time := time ev\<rparr>) = Inr s' \<or>
            etype ev = DEPARTURE \<and> on_departure (node_name ev) (s1\<lparr>sim_time := time ev\<rparr>) = Inr s'"
    by blast
  from update_time_stats_keys [OF u] have "map fst (nodes (s1\<lparr>sim_time := time ev\<rparr>)) = map fst (nodes s)"
    by simp
  with d show ?thesis by (auto dest: on_arrival_keys on_departure_keys)
qed

lemma state_after_capacity:
  assumes "state_after i s = Some s'" and "capacity_inv (\<lambda>k. 0) s"
  shows "capacity_inv (\<lambda>k. 0) s' \<and> map fst (nodes s') = map fst (nodes s)"
  using assms
proof (induction i arbitrary: s)
  case 0
  then show ?case by simp
next
  case (Suc i)
  from Suc.prems(1) obtain s1 where st: "step s = Inr s1" and r: "state_after i s1 = Some s'"
    by (auto split: if_splits sum.splits)
  from Suc.IH [OF r step_capacity [OF st Suc.prems(2)]] step_keys [OF st] show ?case by simp
qed

lemma first_arrivals_capacity:
  assumes "first_arrivals ns s = Inr s'" and "capacity_inv extra s"
  shows "capacity_inv extra s'"
  using assms
proof (induction ns arbitrary: s)
  case Nil
  then show ?case by simp
next
  case (Cons a ns)
  obtain nm nd where a: "a = (nm, nd)" by (cases a)
  show ?case
  proof (cases "arrival_sampler nd")
    case None
    with Cons a show ?thesis by simp
  next
    case (Some rg)
    with Cons.prems(1) a obtain t s1 where sm: "sample rg s = Inr (t, s1)"
      and r: "first_arrivals ns (schedule t ARRIVAL nm s1) = Inr s'"
      by (auto split: sum.splits)
    from sample_Inr [OF sm] Cons.prems(2) have "capacity_inv extra (schedule t ARRIVAL nm s1)"
      by auto
    from Cons.IH [OF r this] show ?thesis .
  qed
qed

lemma build_nodes_capacity:
  assumes "build_nodes qs acc = Inr ns"
    and "\<forall>key nd. map_of acc key = Some nd \<longrightarrow> name nd = key \<and> occupied 0 nd"
    and "distinct (map fst acc)"
  shows "(\<forall>key nd. map_of ns key = Some nd \<longrightarrow> name nd = key \<and> occupied 0 nd) \<and>
         distinct (map fst ns)"
  using assms
proof (induction qs arbitrary: acc)
  case Nil
  then show ?case by simp
next
  case (Cons q qs)
  obtain nm p where q: "q = (nm, p)" by (cases q)
  from Cons.prems(1) q obtain nd where b: "build_node nm p = Inr nd"
    and r: "build_nodes qs (AList.update nm nd acc) = Inr ns"
    by (auto split: sum.splits)
  from build_node_Inr [OF b] have "name nd = nm \<and> occupied 0 nd"
    by (auto simp: Node_def occupied_def)
  with Cons.prems(2)
  have "\<forall>key nd'. map_of (AList.update nm nd acc) key = Some nd' \<longrightarrow> name nd' = key \<and> occupied 0 nd'"
    by (auto simp: update_conv')
  moreover from Cons.prems(3) have "distinct (map fst (AList.update nm nd acc))"
    by (rule distinct_update)
  ultimately show ?case using Cons.IH [OF r] by blast
qed

lemma NetworkSimulator_capacity:
  assumes "NetworkSimulator cfg = Inr s"
  shows "capacity_inv (\<lambda>k. 0) s \<and> distinct (map fst (nodes s))"
proof -
  from assms obtain ns where b: "build_nodes (queues cfg) [] = Inr ns" and n: "nodes s = ns"
    and e: "events s = []"
    by (auto simp: NetworkSimulator_def split: sum.splits)
  from build_nodes_capacity [OF b] n e show ?thesis
    by (simp add: capacity_inv_def pending_def)
qed

text \<open>
  Claim C2, amended. At every reachable state of the event loop the occupancy \<open>n\<close> of
  every node is at least zero, and it is at most the capacity \<open>k\<close> for every node whose
  capacity is not negative. An admission attempt on a node whose occupancy equals its
  capacity returns the blocked signal and changes nothing but the loss count, which grows
  by one: occupancy, served count and time-in-state are as before.
\<close>

theorem occupancy_within_capacity:
  assumes "NetworkSimulator cfg = Inr s0" and "first_arrivals (nodes s0) s0 = Inr s1"
    and "state_after i s1 = Some s" and "(key, nd) \<in> set (nodes s)"
  shows "0 \<le> node_n nd \<and> (0 \<le> node_k nd \<longrightarrow> node_n nd \<le> node_k nd) \<and>
         (\<forall>fila. node_n fila = node_k fila \<longrightarrow>
            admit fila = (False, fila\<lparr>perdas := perdas fila + 1\<rparr>))"
proof -
  from NetworkSimulator_capacity [OF assms(1)] have c0: "capacity_inv (\<lambda>k. 0) s0"
    and d0: "distinct (map fst (nodes s0))" by simp_all
  from first_arrivals_capacity [OF assms(2) c0] have c1: "capacity_inv (\<lambda>k. 0) s1" .
  from state_after_capacity [OF assms(3) c1] first_arrivals_nodes [OF assms(2)]
  have c: "capacity_inv (\<lambda>k. 0) s" and k: "map fst (nodes s) = map fst (nodes s0)" by simp_all
  from k d0 have "distinct (map fst (nodes s))" by simp
  with assms(4) have "map_of (nodes s) key = Some nd" by simp
  with c have "occupied (pending key (events s)) nd" by (simp add: capacity_inv_def)
  with pending_nonneg [of key "events s"]
  have "0 \<le> node_n nd \<and> (0 \<le> node_k nd \<longrightarrow> node_n nd \<le> node_k nd)"
    by (auto simp: occupied_def)
  then show ?thesis by (simp add: admit_def)
qed

text \<open>
  Claim C2, as stated, fails: a node with the capacity \<open>- 1\<close> is constructed with the
  occupancy 0, which is above its capacity, and keeps it in the states the loop reaches
  (here after two arrivals at the time 0, both lost).
\<close>

theorem negative_capacity_exceeded:
  "NetworkSimulator negative_capacity_cfg = Inr negative_capacity_start \<and>
   first_arrivals (nodes negative_capacity_start) negative_capacity_start =
     Inr negative_capacity_armed \<and>
   state_after 2 negative_capacity_armed = Some negative_capacity_after \<and>
   nodes negative_capacity_after = [(''Q1'', negative_capacity_node 2)] \<and>
   node_n (negative_capacity_node 2) = 0 \<and>
   node_k (negative_capacity_node 2) = - 1 \<and>
   \<not> node_n (negative_capacity_node 2) \<le> node_k (negative_capacity_node 2)"
proof -
  have a: "NetworkSimulator negative_capacity_cfg = Inr negative_capacity_start"
    by (simp add: negative_capacity_cfg_def negative_capacity_start_def
        negative_capacity_node_def sim_defs Let_def)
  have b: "first_arrivals (nodes negative_capacity_start) negative_capacity_start =
     Inr negative_capacity_armed"
    by (simp add: negative_capacity_start_def negative_capacity_armed_def
        negative_capacity_node_def sim_defs Let_def)
  have c: "state_after 2 negative_capacity_armed = Some negative_capacity_after"
    by (simp add: negative_capacity_armed_def negative_capacity_after_def
        negative_capacity_node_def sim_defs Let_def eval_nat_numeral)
  have d: "nodes negative_capacity_after = [(''Q1'', negative_capacity_node 2)]"
    by (simp add: negative_capacity_after_def)
  from a b c d show ?thesis by (simp add: negative_capacity_node_def)
qed

theorem occupancy_within_capacity_witness:
  "NetworkSimulator (scenario [0, 0, 0, 0, 0, 0, 0]) = Inr scenario_start \<and>
   first_arrivals (nodes scenario_start) scenario_start = Inr scenario_armed \<and>
   state_after 3 scenario_armed = Some scenario_mid \<and>
   (''Q1'', scenario_node 1 [3 / 2, 1 / 2] 1 2) \<in> set (nodes scenario_mid) \<and>
   0 \<le> node_n (scenario_node 1 [3 / 2, 1 / 2] 1 2) \<and>
   0 \<le> node_k (scenario_node 1 [3 / 2, 1 / 2] 1 2) \<and>
   node_n (scenario_node 1 [3 / 2, 1 / 2] 1 2) \<le> node_k (scenario_node 1 [3 / 2, 1 / 2] 1 2) \<and>
   node_n (scenario_node 1 [3 / 2, 1 / 2] 1 2) = node_k (scenario_node 1 [3 / 2, 1 / 2] 1 2) \<and>
   admit (scenario_node 1 [3 / 2, 1 / 2] 1 2) =
     (False, (scenario_node 1 [3 / 2, 1 / 2] 1 2)\<lparr>perdas := perdas (scenario_node 1 [3 / 2, 1 / 2] 1 2) + 1\<rparr>)"
proof -
  let ?nd = "scenario_node 1 [3 / 2, 1 / 2] 1 2"
  have m: "(''Q1'', ?nd) \<in> set (nodes scenario_mid)"
    by (simp add: scenario_mid_def)
  have k: "0 \<le> node_k ?nd" and e: "node_n ?nd = node_k ?nd"
    by (simp_all add: scenario_node_def)
  from occupancy_within_capacity [OF scenario_start_constructed scenario_first_arrivals
      scenario_after_three m]
  have "0 \<le> node_n ?nd" and "0 \<le> node_k ?nd \<longrightarrow> node_n ?nd \<le> node_k ?nd"
    and "node_n ?nd = node_k ?nd \<longrightarrow> admit ?nd = (False, ?nd\<lparr>perdas := perdas ?nd + 1\<rparr>)"
    by blast+
  with k e scenario_start_constructed scenario_first_arrivals scenario_after_three m
  show ?thesis by blast
qed

subsection \<open>Exhaustion of the replay source\<close>

lemma rng_u_used: "used (snd (rng_u r)) = used r + 1"
  by (auto simp: rng_u_def Let_def split: deviate_source.splits list.splits prod.splits)

lemma rng_u_exhausted:
  "source r = ListSource [] \<Longrightarrow> rng_u r = (Inl RuntimeError, r\<lparr>used := used r + 1\<rparr>)"
  by (simp add: rng_u_def)

lemma rng_u_budget: "rng_u r = (Inr v, r') \<Longrightarrow> budget r' = budget r"
  by (auto simp: rng_u_def budget_def Let_def split: deviate_source.splits list.splits prod.splits)

lemma rng_u_error: "rng_u r = (Inl e, r') \<Longrightarrow> e = RuntimeError \<and> source r = ListSource []"
  by (auto simp: rng_u_def Let_def split: deviate_source.splits list.splits prod.splits)

lemma sample_budget: "sample rg s = Inr (x, s') \<Longrightarrow> budget (rng s') = budget (rng s)"
  by (auto dest!: sample_Inr rng_u_budget)

lemma start_service_budget: "start_service fila s = Inr s' \<Longrightarrow> budget (rng s') = budget (rng s)"
  by (auto dest!: start_service_Inr rng_u_budget)

lemma pick_destination_budget:
  "pick_destination nm s = Inr (d, s') \<Longrightarrow> budget (rng s') = budget (rng s)"
  by (auto dest!: pick_destination_Inr rng_u_budget)

lemma admit_and_start_budget:
  assumes "admit_and_start key s = Inr s'"
  shows "budget (rng s') = budget (rng s)"
proof -
  from assms obtain fila where f: "map_of (nodes s) key = Some fila"
    by (auto simp: admit_and_start_def split: option.splits)
  let ?s1 = "s\<lparr>nodes := AList.update key (snd (admit fila)) (nodes s)\<rparr>"
  from assms f have "s' = ?s1 \<or> start_service (snd (admit fila)) ?s1 = Inr s'"
    by (auto simp: admit_and_start_def Let_def split: prod.splits if_splits)
  then show ?thesis by (auto dest: start_service_budget)
qed

lemma route_customer_budget:
  assumes "route_customer nm s = Inr s'"
  shows "budget (rng s') = budget (rng s)"
proof -
  from assms have "\<exists>d s1. pick_destination nm s = Inr (d, s1) \<and>
      (s' = s1 \<or> (\<exists>dn. admit_and_start dn s1 = Inr s'))"
    by (auto simp: route_customer_def split: sum.splits option.splits if_splits)
  then obtain d s1 where pd: "pick_destination nm s = Inr (d, s1)"
    and r: "s' = s1 \<or> (\<exists>dn. admit_and_start dn s1 = Inr s')"
    by blast
  from r pick_destination_budget [OF pd] show ?thesis
    by (auto dest: admit_and_start_budget)
qed

lemma on_arrival_budget:
  assumes "on_arrival key s = Inr s'"
  shows "budget (rng s') = budget (rng s)"
proof -
  from assms obtain fila where f: "map_of (nodes s) key = Some fila"
    by (auto simp: on_arrival_def split: option.splits)
  let ?s1 = "s\<lparr>total_arrivals_count := total_arrivals_count s + 1\<rparr>"
  show ?thesis
  proof (cases "arrival_sampler fila")
    case None
    with assms f have "admit_and_start key ?s1 = Inr s'" by (simp add: on_arrival_def)
    from admit_and_start_budget [OF this] show ?thesis by simp
  next
    case (Some rg)
    with assms f obtain x s2 where sm: "sample rg ?s1 = Inr (x, s2)"
      and a: "admit_and_start key (schedule (sim_time s2 + x) ARRIVAL (name fila) s2) = Inr s'"
      by (auto simp: on_arrival_def split: sum.splits)
    from admit_and_start_budget [OF a] sample_budget [OF sm] show ?thesis by simp
  qed
qed

lemma on_departure_budget:
  assumes "on_departure key s = Inr s'"
  shows "budget (rng s') = budget (rng s)"
proof -
  from assms obtain fila where f: "map_of (nodes s) key = Some fila"
    by (auto simp: on_departure_def split: option.splits)
  let ?f = "finish_service_one fila"
  let ?s1 = "s\<lparr>nodes := AList.update key ?f (nodes s)\<rparr>"
  from assms f have "\<exists>s2. (s2 = ?s1 \<or> start_service ?f ?s1 = Inr s2) \<and>
      route_customer (name ?f) s2 = Inr s'"
    by (auto simp: on_departure_def Let_def split: sum.splits if_splits)
  then obtain s2 where s2: "s2 = ?s1 \<or> start_service ?f ?s1 = Inr s2"
    and r: "route_customer (name ?f) s2 = Inr s'"
    by blast
  from s2 have "budget (rng s2) = budget (rng s)" by (auto dest: start_service_budget)
  with route_customer_budget [OF r] show ?thesis by simp
qed

lemma step_budget:
  assumes "step s = Inr s'"
  shows "budget (rng s') = budget (rng s)"
proof -
  from step_Inr [OF assms] obtain ev :: event and rest s1 where
    u: "update_time_stats (time ev) (s\<lparr>events := rest\<rparr>) = Inr s1"
    and d: "etype ev = ARRIVAL \<and> on_arrival (node_name ev) (s1\<lparr>sim_time := time ev\<rparr>) = Inr s' \<or>
            etype ev = DEPARTURE \<and> on_departure (node_name ev) (s1\<lparr>sim_time := time ev\<rparr>) = Inr s'"
    by blast
  from update_time_stats_frame [OF u] have "rng (s1\<lparr>sim_time := time ev\<rparr>) = rng s" by simp
  with d show ?thesis by (auto dest: on_arrival_budget on_departure_budget)
qed

lemma state_after_budget: "state_after i s = Some s' \<Longrightarrow> budget (rng s') = budget (rng s)"
proof (induction i arbitrary: s)
  case 0
  then show ?case by simp
next
  case (Suc i)
  from Suc.prems obtain s1 where st: "step s = Inr s1" and r: "state_after i s1 = Some s'"
    by (auto split: if_splits sum.splits)
  from Suc.IH [OF r] step_budget [OF st] show ?case by simp
qed

lemma first_arrivals_budget: "first_arrivals ns s = Inr s' \<Longrightarrow> budget (rng s') = budget (rng s)"
proof (induction ns arbitrary: s)
  case Nil
  then show ?case by simp
next
  case (Cons a ns)
  obtain nm nd where a: "a = (nm, nd)" by (cases a)
  show ?case
  proof (cases "arrival_sampler nd")
    case None
    with Cons a show ?thesis by simp
  next
    case (Some rg)
    with Cons.prems a obtain t s1 where sm: "sample rg s = Inr (t, s1)"
      and r: "first_arrivals ns (schedule t ARRIVAL nm s1) = Inr s'"
      by (auto split: sum.splits)
    from Cons.IH [OF r] sample_budget [OF sm] show ?thesis by simp
  qed
qed

lemma run_state_budget:
  assumes "run_state fuel s = Some (Inr s')"
  shows "budget (rng s') = budget (rng s)"
proof -
  from run_state_Inr [OF assms] obtain s0 i s1 where
    f: "first_arrivals (nodes s) s = Inr s0" and a: "state_after i s0 = Some s1"
    and u: "update_time_stats (sim_time s1) s1 = Inr s'" by blast
  from update_time_stats_frame [OF u] state_after_budget [OF a] first_arrivals_budget [OF f]
  show ?thesis by simp
qed

lemma run_loop_abort:
  "state_after i s = Some s1 \<Longrightarrow> loop_cond s1 \<Longrightarrow> step s1 = Inl e \<Longrightarrow> i < fuel \<Longrightarrow>
   run_loop fuel s = Some (Inl e)"
proof (induction i arbitrary: s fuel)
  case 0
  then obtain f where "fuel = Suc f" by (cases fuel) auto
  with 0 show ?case by simp
next
  case (Suc i)
  from Suc.prems(1) have c: "loop_cond s" by (auto split: if_splits)
  with Suc.prems(1) obtain s2 where st: "step s = Inr s2" and r: "state_after i s2 = Some s1"
    by (auto split: sum.splits)
  from Suc.prems(4) obtain f where f: "fuel = Suc f" and lt: "i < f" by (cases fuel) auto
  from Suc.IH [OF r Suc.prems(2,3) lt] c st f show ?case by simp
qed

lemma resupply_simps [simp]:
  "nodes (resupply ys s) = nodes s"
  "rng (resupply ys s) = resupply_rng ys (rng s)"
  "routing_table (resupply ys s) = routing_table s"
  "total_arrivals_target (resupply ys s) = total_arrivals_target s"
  "total_arrivals_count (resupply ys s) = total_arrivals_count s"
  "sim_time (resupply ys s) = sim_time s"
  "last_update_time (resupply ys s) = last_update_time s"
  "events (resupply ys s) = events s"
  "seq_counter (resupply ys s) = seq_counter s"
  by (simp_all add: resupply_def)

lemma resupply_rng_used [simp]: "used (resupply_rng ys r) = used r"
  by (simp add: resupply_rng_def split: deviate_source.splits)

lemma resupply_update:
  "(resupply ys s)\<lparr>nodes := ns\<rparr> = resupply ys (s\<lparr>nodes := ns\<rparr>)"
  "(resupply ys s)\<lparr>total_arrivals_count := k\<rparr> = resupply ys (s\<lparr>total_arrivals_count := k\<rparr>)"
  "(resupply ys s)\<lparr>sim_time := t\<rparr> = resupply ys (s\<lparr>sim_time := t\<rparr>)"
  "(resupply ys s)\<lparr>last_update_time := t\<rparr> = resupply ys (s\<lparr>last_update_time := t\<rparr>)"
  "(resupply ys s)\<lparr>events := evs\<rparr> = resupply ys (s\<lparr>events := evs\<rparr>)"
  "(resupply ys s)\<lparr>rng := resupply_rng ys r\<rparr> = resupply ys (s\<lparr>rng := r\<rparr>)"
  "schedule t ty nm (resupply ys s) = resupply ys (schedule t ty nm s)"
  by (simp_all add: resupply_def schedule_def Let_def)

lemma rng_u_resupply:
  assumes "rng_u (resupply_rng ys r) = (Inr v, r')"
  shows "(\<exists>r1. rng_u r = (Inr v, r1) \<and> r' = resupply_rng ys r1) \<or>
         rng_u r = (Inl RuntimeError, r\<lparr>used := used r + 1\<rparr>)"
  using assms
  by (auto simp: rng_u_def resupply_rng_def Let_def split: deviate_source.splits list.splits prod.splits)

lemma sample_resupply:
  assumes "sample rg (resupply ys s) = Inr (x, t')"
  shows "(\<exists>t. sample rg s = Inr (x, t) \<and> t' = resupply ys t) \<or> sample rg s = Inl RuntimeError"
proof -
  from sample_Inr [OF assms] obtain v r' where
    u: "rng_u (resupply_rng ys (rng s)) = (Inr v, r')"
    and x: "x = fst rg + (snd rg - fst rg) * v" and t: "t' = (resupply ys s)\<lparr>rng := r'\<rparr>"
    by auto
  from rng_u_resupply [OF u] show ?thesis
  proof
    assume "\<exists>r1. rng_u (rng s) = (Inr v, r1) \<and> r' = resupply_rng ys r1"
    then obtain r1 where r1: "rng_u (rng s) = (Inr v, r1)" and r': "r' = resupply_rng ys r1" by blast
    from r1 x have "sample rg s = Inr (x, s\<lparr>rng := r1\<rparr>)" by (simp add: sample_def)
    moreover from t r' have "t' = resupply ys (s\<lparr>rng := r1\<rparr>)" by (simp add: resupply_update)
    ultimately show ?thesis by blast
  next
    assume "rng_u (rng s) = (Inl RuntimeError, rng s\<lparr>used := used (rng s) + 1\<rparr>)"
    then have "sample rg s = Inl RuntimeError" by (simp add: sample_def)
    then show ?thesis ..
  qed
qed

lemma start_service_resupply:
  assumes "start_service fila (resupply ys s) = Inr t'"
  shows "(\<exists>t. start_service fila s = Inr t \<and> t' = resupply ys t) \<or>
         start_service fila s = Inl RuntimeError"
proof -
  from assms obtain x t1 where sm: "sample (service_sampler fila) (resupply ys s) = Inr (x, t1)"
    and t': "t' = schedule (sim_time t1 + x) DEPARTURE (name fila) t1"
    by (auto simp: start_service_def split: sum.splits)
  from sample_resupply [OF sm] show ?thesis
  proof
    assume "\<exists>t. sample (service_sampler fila) s = Inr (x, t) \<and> t1 = resupply ys t"
    then obtain t where a: "sample (service_sampler fila) s = Inr (x, t)" and b: "t1 = resupply ys t"
      by blast
    from a have "start_service fila s = Inr (schedule (sim_time t + x) DEPARTURE (name fila) t)"
      by (simp add: start_service_def)
    moreover from t' b have "t' = resupply ys (schedule (sim_time t + x) DEPARTURE (name fila) t)"
      by (simp add: resupply_update)
    ultimately show ?thesis by blast
  next
    assume "sample (service_sampler fila) s = Inl RuntimeError"
    then have "start_service fila s = Inl RuntimeError" by (simp add: start_service_def)
    then show ?thesis ..
  qed
qed

lemma pick_destination_resupply:
  assumes "pick_destination nm (resupply ys s) = Inr (d, t')"
  shows "(\<exists>t. pick_destination nm s = Inr (d, t) \<and> t' = resupply ys t) \<or>
         pick_destination nm s = Inl RuntimeError"
proof (cases "map_of (routing_table s) nm")
  case None
  with assms show ?thesis by (auto simp: pick_destination_def)
next
  case (Some rules)
  show ?thesis
  proof (cases "rules = []")
    case True
    with Some assms show ?thesis by (auto simp: pick_destination_def)
  next
    case False
    with Some assms obtain v r' where u: "rng_u (resupply_rng ys (rng s)) = (Inr v, r')"
      and d: "d = scan_rules v rules" and t: "t' = (resupply ys s)\<lparr>rng := r'\<rparr>"
      by (auto simp: pick_destination_def split: prod.splits sum.splits)
    from rng_u_resupply [OF u] show ?thesis
    proof
      assume "\<exists>r1. rng_u (rng s) = (Inr v, r1) \<and> r' = resupply_rng ys r1"
      then obtain r1 where r1: "rng_u (rng s) = (Inr v, r1)" and r': "r' = resupply_rng ys r1" by blast
      from r1 d Some False have "pick_destination nm s = Inr (d, s\<lparr>rng := r1\<rparr>)"
        by (simp add: pick_destination_def)
      moreover from t r' have "t' = resupply ys (s\<lparr>rng := r1\<rparr>)" by (simp add: resupply_update)
      ultimately show ?thesis by blast
    next
      assume "rng_u (rng s) = (Inl RuntimeError, rng s\<lparr>used := used (rng s) + 1\<rparr>)"
      with Some False have "pick_destination nm s = Inl RuntimeError"
        by (simp add: pick_destination_def)
      then show ?thesis ..
    qed
  qed
qed

lemma admit_and_start_resupply:
  assumes "admit_and_start key (resupply ys s) = Inr t'"
  shows "(\<exists>t. admit_and_start key s = Inr t \<and> t' = resupply ys t) \<or>
         admit_and_start key s = Inl RuntimeError"
proof -
  from assms obtain fila where f: "map_of (nodes s) key = Some fila"
    by (auto simp: admit_and_start_def split: option.splits)
  obtain ok fila' where ad: "admit fila = (ok, fila')" by (cases "admit fila")
  let ?s1 = "s\<lparr>nodes := AList.update key fila' (nodes s)\<rparr>"
  show ?thesis
  proof (cases "ok \<and> node_n fila' \<le> node_c fila'")
    case True
    with assms f ad have "start_service fila' (resupply ys ?s1) = Inr t'"
      by (simp add: admit_and_start_def resupply_update)
    from start_service_resupply [OF this] True f ad show ?thesis
      by (simp add: admit_and_start_def)
  next
    case False
    with assms f ad have "t' = resupply ys ?s1" by (auto simp: admit_and_start_def resupply_update)
    moreover from False f ad have "admit_and_start key s = Inr ?s1"
      by (auto simp: admit_and_start_def)
    ultimately show ?thesis by blast
  qed
qed

lemma route_customer_resupply:
  assumes "route_customer nm (resupply ys s) = Inr t'"
  shows "(\<exists>t. route_customer nm s = Inr t \<and> t' = resupply ys t) \<or>
         route_customer nm s = Inl RuntimeError"
proof -
  from assms obtain d t1 where pd: "pick_destination nm (resupply ys s) = Inr (d, t1)"
    by (auto simp: route_customer_def split: sum.splits)
  from pick_destination_resupply [OF pd] show ?thesis
  proof
    assume "\<exists>t. pick_destination nm s = Inr (d, t) \<and> t1 = resupply ys t"
    then obtain t where a: "pick_destination nm s = Inr (d, t)" and b: "t1 = resupply ys t" by blast
    show ?thesis
    proof (cases "d = None \<or> d = Some []")
      case True
      with assms pd b have "t' = resupply ys t" by (auto simp: route_customer_def)
      moreover from True a have "route_customer nm s = Inr t" by (auto simp: route_customer_def)
      ultimately show ?thesis by blast
    next
      case False
      then obtain dn where dn: "d = Some dn" "dn \<noteq> []" by (cases d) auto
      with assms pd b have "admit_and_start dn (resupply ys t) = Inr t'"
        by (simp add: route_customer_def)
      from admit_and_start_resupply [OF this] a dn show ?thesis
        by (simp add: route_customer_def)
    qed
  next
    assume "pick_destination nm s = Inl RuntimeError"
    then have "route_customer nm s = Inl RuntimeError" by (simp add: route_customer_def)
    then show ?thesis ..
  qed
qed

lemma on_arrival_resupply:
  assumes "on_arrival key (resupply ys s) = Inr t'"
  shows "(\<exists>t. on_arrival key s = Inr t \<and> t' = resupply ys t) \<or>
         on_arrival key s = Inl RuntimeError"
proof -
  from assms obtain fila where f: "map_of (nodes s) key = Some fila"
    by (auto simp: on_arrival_def split: option.splits)
  let ?s1 = "s\<lparr>total_arrivals_count := total_arrivals_count s + 1\<rparr>"
  show ?thesis
  proof (cases "arrival_sampler fila")
    case None
    with assms f have "admit_and_start key (resupply ys ?s1) = Inr t'"
      by (simp add: on_arrival_def resupply_update)
    from admit_and_start_resupply [OF this] None f show ?thesis by (simp add: on_arrival_def)
  next
    case (Some rg)
    with assms f obtain x t2 where sm: "sample rg (resupply ys ?s1) = Inr (x, t2)"
      and a: "admit_and_start key (schedule (sim_time t2 + x) ARRIVAL (name fila) t2) = Inr t'"
      by (auto simp: on_arrival_def resupply_update split: sum.splits)
    from sample_resupply [OF sm] show ?thesis
    proof
      assume "\<exists>t. sample rg ?s1 = Inr (x, t) \<and> t2 = resupply ys t"
      then obtain s2 where b: "sample rg ?s1 = Inr (x, s2)" and c: "t2 = resupply ys s2" by blast
      from a c have "admit_and_start key (resupply ys (schedule (sim_time s2 + x) ARRIVAL (name fila) s2)) = Inr t'"
        by (simp add: resupply_update)
      from admit_and_start_resupply [OF this] b Some f show ?thesis by (simp add: on_arrival_def)
    next
      assume "sample rg ?s1 = Inl RuntimeError"
      with Some f have "on_arrival key s = Inl RuntimeError" by (simp add: on_arrival_def)
      then show ?thesis ..
    qed
  qed
qed

lemma on_departure_resupply:
  assumes "on_departure key (resupply ys s) = Inr t'"
  shows "(\<exists>t. on_departure key s = Inr t \<and> t' = resupply ys t) \<or>
         on_departure key s = Inl RuntimeError"
proof -
  from assms obtain fila where f: "map_of (nodes s) key = Some fila"
    by (auto simp: on_departure_def split: option.splits)
  let ?f = "finish_service_one fila"
  let ?s1 = "s\<lparr>nodes := AList.update key ?f (nodes s)\<rparr>"
  show ?thesis
  proof (cases "node_n ?f \<ge> node_c ?f")
    case True
    with assms f obtain t2 where st: "start_service ?f (resupply ys ?s1) = Inr t2"
      and r: "route_customer (name ?f) t2 = Inr t'"
      by (auto simp: on_departure_def Let_def resupply_update split: sum.splits)
    from start_service_resupply [OF st] show ?thesis
    proof
      assume "\<exists>t. start_service ?f ?s1 = Inr t \<and> t2 = resupply ys t"
      then obtain s2 where b: "start_service ?f ?s1 = Inr s2" and c: "t2 = resupply ys s2" by blast
      from r c have "route_customer (name ?f) (resupply ys s2) = Inr t'" by simp
      from route_customer_resupply [OF this] b True f show ?thesis
        by (simp add: on_departure_def Let_def)
    next
      assume "start_service ?f ?s1 = Inl RuntimeError"
      with True f have "on_departure key s = Inl RuntimeError" by (simp add: on_departure_def Let_def)
      then show ?thesis ..
    qed
  next
    case False
    with assms f have "route_customer (name ?f) (resupply ys ?s1) = Inr t'"
      by (auto simp: on_departure_def Let_def resupply_update split: sum.splits)
    from route_customer_resupply [OF this] False f show ?thesis
      by (simp add: on_departure_def Let_def)
  qed
qed

lemma update_time_stats_resupply:
  "update_time_stats t (resupply ys s) = map_sum id (resupply ys) (update_time_stats t s)"
  by (simp add: update_time_stats_def Let_def resupply_def split: sum.splits)

lemma step_resupply:
  assumes "step (resupply ys s) = Inr t'"
  shows "(\<exists>t. step s = Inr t \<and> t' = resupply ys t) \<or> step s = Inl RuntimeError"
proof -
  from step_Inr [OF assms] obtain ev :: event and rest t1 where
    h: "heappop (events s) = Inr (ev, rest)"
    and u: "update_time_stats (time ev) ((resupply ys s)\<lparr>events := rest\<rparr>) = Inr t1"
    and d: "etype ev = ARRIVAL \<and> on_arrival (node_name ev) (t1\<lparr>sim_time := time ev\<rparr>) = Inr t' \<or>
            etype ev = DEPARTURE \<and> on_departure (node_name ev) (t1\<lparr>sim_time := time ev\<rparr>) = Inr t'"
    by auto
  from u obtain s1 where u1: "update_time_stats (time ev) (s\<lparr>events := rest\<rparr>) = Inr s1"
    and t1: "t1 = resupply ys s1"
    by (cases "update_time_stats (time ev) (s\<lparr>events := rest\<rparr>)")
       (auto simp: resupply_update update_time_stats_resupply)
  let ?s2 = "s1\<lparr>sim_time := time ev\<rparr>"
  from t1 have t2: "t1\<lparr>sim_time := time ev\<rparr> = resupply ys ?s2" by (simp add: resupply_update)
  show ?thesis
  proof (cases "etype ev")
    case ARRIVAL
    with d t2 have "on_arrival (node_name ev) (resupply ys ?s2) = Inr t'" by simp
    from on_arrival_resupply [OF this] h u1 ARRIVAL show ?thesis by (simp add: step_def)
  next
    case DEPARTURE
    with d t2 have "on_departure (node_name ev) (resupply ys ?s2) = Inr t'" by simp
    from on_departure_resupply [OF this] h u1 DEPARTURE show ?thesis by (simp add: step_def)
  qed
qed

lemma loop_cond_resupply [simp]: "loop_cond (resupply ys s) = loop_cond s"
  by (simp add: loop_cond_def)

lemma run_loop_resupply:
  "run_loop fuel (resupply ys s) = Some (Inr t') \<Longrightarrow>
   (\<exists>t. run_loop fuel s = Some (Inr t) \<and> t' = resupply ys t) \<or>
   run_loop fuel s = Some (Inl RuntimeError)"
proof (induction fuel arbitrary: s)
  case 0
  then show ?case by (auto split: if_splits)
next
  case (Suc fuel)
  show ?case
  proof (cases "loop_cond s")
    case False
    with Suc.prems show ?thesis by auto
  next
    case True
    with Suc.prems obtain t1 where st: "step (resupply ys s) = Inr t1"
      and r: "run_loop fuel t1 = Some (Inr t')"
      by (auto split: sum.splits)
    from step_resupply [OF st] show ?thesis
    proof
      assume "\<exists>t. step s = Inr t \<and> t1 = resupply ys t"
      then obtain s1 where a: "step s = Inr s1" and b: "t1 = resupply ys s1" by blast
      from r b have "run_loop fuel (resupply ys s1) = Some (Inr t')" by simp
      from Suc.IH [OF this] a True show ?thesis by simp
    next
      assume "step s = Inl RuntimeError"
      with True show ?thesis by simp
    qed
  qed
qed

lemma first_arrivals_resupply:
  "first_arrivals ns (resupply ys s) = Inr t' \<Longrightarrow>
   (\<exists>t. first_arrivals ns s = Inr t \<and> t' = resupply ys t) \<or>
   first_arrivals ns s = Inl RuntimeError"
proof (induction ns arbitrary: s)
  case Nil
  then show ?case by simp
next
  case (Cons a ns)
  obtain nm nd where a: "a = (nm, nd)" by (cases a)
  show ?case
  proof (cases "arrival_sampler nd")
    case None
    with Cons a show ?thesis by simp
  next
    case (Some rg)
    with Cons.prems a obtain x t1 where sm: "sample rg (resupply ys s) = Inr (x, t1)"
      and r: "first_arrivals ns (schedule x ARRIVAL nm t1) = Inr t'"
      by (auto split: sum.splits)
    from sample_resupply [OF sm] show ?thesis
    proof
      assume "\<exists>t. sample rg s = Inr (x, t) \<and> t1 = resupply ys t"
      then obtain s1 where b: "sample rg s = Inr (x, s1)" and c: "t1 = resupply ys s1" by blast
      from r c have "first_arrivals ns (resupply ys (schedule x ARRIVAL nm s1)) = Inr t'"
        by (simp add: resupply_update)
      from Cons.IH [OF this] b Some a show ?thesis by simp
    next
      assume "sample rg s = Inl RuntimeError"
      with Some a show ?thesis by simp
    qed
  qed
qed

lemma run_state_resupply:
  assumes "run_state fuel (resupply ys s) = Some (Inr t')"
  shows "(\<exists>t. run_state fuel s = Some (Inr t) \<and> t' = resupply ys t) \<or>
         run_state fuel s = Some (Inl RuntimeError)"
proof -
  from assms obtain t0 t1 where f: "first_arrivals (nodes s) (resupply ys s) = Inr t0"
    and l: "run_loop fuel t0 = Some (Inr t1)" and u: "update_time_stats (sim_time t1) t1 = Inr t'"
    by (auto simp: run_state_def split: sum.splits option.splits)
  from first_arrivals_resupply [OF f] show ?thesis
  proof
    assume "\<exists>t. first_arrivals (nodes s) s = Inr t \<and> t0 = resupply ys t"
    then obtain s0 where a: "first_arrivals (nodes s) s = Inr s0" and b: "t0 = resupply ys s0" by blast
    from l b have "run_loop fuel (resupply ys s0) = Some (Inr t')
        \<or> run_loop fuel (resupply ys s0) = Some (Inr t1)" by simp
    with l b have l': "run_loop fuel (resupply ys s0) = Some (Inr t1)" by simp
    from run_loop_resupply [OF l'] show ?thesis
    proof
      assume "\<exists>t. run_loop fuel s0 = Some (Inr t) \<and> t1 = resupply ys t"
      then obtain s1 where c: "run_loop fuel s0 = Some (Inr s1)" and d: "t1 = resupply ys s1" by blast
      from u d have "map_sum id (resupply ys) (update_time_stats (sim_time s1) s1) = Inr t'"
        by (simp add: update_time_stats_resupply)
      then obtain s2 where e: "update_time_stats (sim_time s1) s1 = Inr s2" and g: "t' = resupply ys s2"
        by (cases "update_time_stats (sim_time s1) s1") auto
      from a c e have "run_state fuel s = Some (Inr s2)" by (simp add: run_state_def)
      with g show ?thesis by blast
    next
      assume "run_loop fuel s0 = Some (Inl RuntimeError)"
      with a have "run_state fuel s = Some (Inl RuntimeError)" by (simp add: run_state_def)
      then show ?thesis ..
    qed
  next
    assume "first_arrivals (nodes s) s = Inl RuntimeError"
    then have "run_state fuel s = Some (Inl RuntimeError)" by (simp add: run_state_def)
    then show ?thesis ..
  qed
qed

lemma replay_budget:
  assumes "source r = ListSource xs" and "budget r' = budget r"
  shows "used r' \<le> used r + int (length xs)"
  using assms by (auto simp: budget_def split: deviate_source.splits)

lemma step_demand:
  assumes "source (rng s) = ListSource xs" and "step (resupply ys s) = Inr t'"
    and "used (rng s) + int (length xs) < used (rng t')"
  shows "step s = Inl RuntimeError"
proof -
  from step_resupply [OF assms(2)] show ?thesis
  proof
    assume "\<exists>t. step s = Inr t \<and> t' = resupply ys t"
    then obtain t where a: "step s = Inr t" and b: "t' = resupply ys t" by blast
    from replay_budget [OF assms(1) step_budget [OF a]] b assms(3) show ?thesis by simp
  qed
qed

lemma first_arrivals_demand:
  assumes "source (rng s) = ListSource xs" and "first_arrivals ns (resupply ys s) = Inr t'"
    and "used (rng s) + int (length xs) < used (rng t')"
  shows "first_arrivals ns s = Inl RuntimeError"
proof -
  from first_arrivals_resupply [OF assms(2)] show ?thesis
  proof
    assume "\<exists>t. first_arrivals ns s = Inr t \<and> t' = resupply ys t"
    then obtain t where a: "first_arrivals ns s = Inr t" and b: "t' = resupply ys t" by blast
    from replay_budget [OF assms(1) first_arrivals_budget [OF a]] b assms(3) show ?thesis by simp
  qed
qed

lemma run_demand:
  assumes "source (rng s) = ListSource xs" and "run_state fuel (resupply ys s) = Some (Inr t')"
    and "used (rng s) + int (length xs) < used (rng t')"
  shows "run fuel s = Some (Inl RuntimeError)"
proof -
  from run_state_resupply [OF assms(2)] have "run_state fuel s = Some (Inl RuntimeError)"
  proof
    assume "\<exists>t. run_state fuel s = Some (Inr t) \<and> t' = resupply ys t"
    then obtain t where a: "run_state fuel s = Some (Inr t)" and b: "t' = resupply ys t" by blast
    from replay_budget [OF assms(1) run_state_budget [OF a]] b assms(3) show ?thesis by simp
  qed
  then show ?thesis by (simp add: run_def)
qed

text \<open>
  Claim C8. A replay source with no value left answers a request with the exhaustion
  error, and the samplers and the routing resolver pass the error on. Nothing between the
  request and the caller of \<^verbatim>\<open>run\<close> catches it: whenever the first loop of
  \<^verbatim>\<open>run\<close>, an iteration of the event loop or the whole run would, with further
  values \<open>ys\<close> supplied after the replay sequence \<open>xs\<close>, go through and use more values
  than \<open>xs\<close> holds, the same loop, iteration or run on \<open>xs\<close> alone fails with the
  exhaustion error and returns no results. An iteration that fails ends the run at once
  with its error, whatever fuel is left, so a run that completes has not asked for more
  values than were supplied. Every call of the deviate source, on either variant and also
  when it fails, adds exactly one to the usage counter.
\<close>

theorem replay_exhaustion_is_fatal:
  "(source r = ListSource [] \<longrightarrow> rng_u r = (Inl RuntimeError, r\<lparr>used := used r + 1\<rparr>)) \<and>
   used (snd (rng_u r)) = used r + 1 \<and>
   (source (rng s) = ListSource [] \<longrightarrow>
      sample rg s = Inl RuntimeError \<and>
      (\<forall>rules. map_of (routing_table s) nm = Some rules \<and> rules \<noteq> [] \<longrightarrow>
         pick_destination nm s = Inl RuntimeError)) \<and>
   (source (rng s) = ListSource xs \<and> first_arrivals ns (resupply ys s) = Inr t' \<and>
    used (rng s) + int (length xs) < used (rng t') \<longrightarrow>
      first_arrivals ns s = Inl RuntimeError) \<and>
   (source (rng s) = ListSource xs \<and> step (resupply ys s) = Inr t' \<and>
    used (rng s) + int (length xs) < used (rng t') \<longrightarrow>
      step s = Inl RuntimeError) \<and>
   (source (rng s) = ListSource xs \<and> run_state fuel (resupply ys s) = Some (Inr t') \<and>
    used (rng s) + int (length xs) < used (rng t') \<longrightarrow>
      run fuel s = Some (Inl RuntimeError)) \<and>
   (state_after i s = Some s1 \<and> loop_cond s1 \<and> step s1 = Inl e \<and> i < fuel \<longrightarrow>
      run_loop fuel s = Some (Inl e)) \<and>
   (first_arrivals (nodes s) s = Inr s0 \<and> run_loop fuel s0 = Some (Inl e) \<longrightarrow>
      run fuel s = Some (Inl e)) \<and>
   (source (rng s) = ListSource xs \<and> run_state fuel s = Some (Inr s') \<longrightarrow>
      used (rng s') \<le> used (rng s) + int (length xs))"
proof -
  have a: "source r = ListSource [] \<longrightarrow> rng_u r = (Inl RuntimeError, r\<lparr>used := used r + 1\<rparr>)"
    by (simp add: rng_u_exhausted)
  have b: "used (snd (rng_u r)) = used r + 1" by (rule rng_u_used)
  have c: "source (rng s) = ListSource [] \<longrightarrow>
      sample rg s = Inl RuntimeError \<and>
      (\<forall>rules. map_of (routing_table s) nm = Some rules \<and> rules \<noteq> [] \<longrightarrow>
         pick_destination nm s = Inl RuntimeError)"
    by (auto simp: sample_def pick_destination_def rng_u_exhausted)
  have p: "source (rng s) = ListSource xs \<and> first_arrivals ns (resupply ys s) = Inr t' \<and>
    used (rng s) + int (length xs) < used (rng t') \<longrightarrow>
      first_arrivals ns s = Inl RuntimeError"
    using first_arrivals_demand by blast
  have q: "source (rng s) = ListSource xs \<and> step (resupply ys s) = Inr t' \<and>
    used (rng s) + int (length xs) < used (rng t') \<longrightarrow>
      step s = Inl RuntimeError"
    using step_demand by blast
  have u: "source (rng s) = ListSource xs \<and> run_state fuel (resupply ys s) = Some (Inr t') \<and>
    used (rng s) + int (length xs) < used (rng t') \<longrightarrow>
      run fuel s = Some (Inl RuntimeError)"
    using run_demand by blast
  have d: "state_after i s = Some s1 \<and> loop_cond s1 \<and> step s1 = Inl e \<and> i < fuel \<longrightarrow>
      run_loop fuel s = Some (Inl e)"
    using run_loop_abort by blast
  have f: "first_arrivals (nodes s) s = Inr s0 \<and> run_loop fuel s0 = Some (Inl e) \<longrightarrow>
      run fuel s = Some (Inl e)"
    by (simp add: run_def run_state_def)
  have g: "source (rng s) = ListSource xs \<and> run_state fuel s = Some (Inr s') \<longrightarrow>
      used (rng s') \<le> used (rng s) + int (length xs)"
  proof
    assume h: "source (rng s) = ListSource xs \<and> run_state fuel s = Some (Inr s')"
    then have "run_state fuel s = Some (Inr s')" ..
    then have "budget (rng s') = budget (rng s)" by (rule run_state_budget)
    with h show "used (rng s') \<le> used (rng s) + int (length xs)"
      by (auto simp: budget_def split: deviate_source.splits)
  qed
  from a b c p q u d f g show ?thesis by (intro conjI)
qed

theorem replay_exhaustion_is_fatal_witness:
  "rng_u \<lparr>source = ListSource [], used = 6\<rparr> =
     (Inl RuntimeError, \<lparr>source = ListSource [], used = 7\<rparr>) \<and>
   source (rng scenario_final) = ListSource [] \<and>
   sample (1, 1) scenario_final = Inl RuntimeError \<and>
   map_of (routing_table (routing_state\<lparr>rng := rng scenario_final\<rparr>)) ''source'' =
     Some [(''A'', 0.3), (''B'', 1)] \<and>
   pick_destination ''source'' (routing_state\<lparr>rng := rng scenario_final\<rparr>) = Inl RuntimeError \<and>
   source (rng (short_start\<lparr>rng := \<lparr>source = ListSource [], used = 0\<rparr>\<rparr>)) = ListSource [] \<and>
   first_arrivals (nodes short_start)
       (resupply [0] (short_start\<lparr>rng := \<lparr>source = ListSource [], used = 0\<rparr>\<rparr>)) =
     Inr (short_armed\<lparr>rng := \<lparr>source = ListSource [], used = 1\<rparr>\<rparr>) \<and>
   first_arrivals (nodes short_start)
       (short_start\<lparr>rng := \<lparr>source = ListSource [], used = 0\<rparr>\<rparr>) = Inl RuntimeError \<and>
   source (rng short_last) = ListSource [0] \<and> used (rng short_last) = 5 \<and>
   step (resupply [0] short_last) = Inr scenario_final \<and> used (rng scenario_final) = 7 \<and>
   step short_last = Inl RuntimeError \<and>
   source (rng short_start) = ListSource [0, 0, 0, 0, 0, 0] \<and>
   resupply [0] short_start = scenario_start \<and>
   run_state 5 (resupply [0] short_start) = Some (Inr scenario_final) \<and>
   run 5 short_start = Some (Inl RuntimeError) \<and>
   state_after 4 short_armed = Some short_last \<and> loop_cond short_last \<and>
   run_loop 5 short_armed = Some (Inl RuntimeError) \<and>
   first_arrivals (nodes short_start) short_start = Inr short_armed \<and>
   source (rng scenario_start) = ListSource [0, 0, 0, 0, 0, 0, 0] \<and>
   run_state 5 scenario_start = Some (Inr scenario_final) \<and>
   used (rng scenario_final) \<le> used (rng scenario_start) + 7"
proof -
  let ?r = "\<lparr>source = ListSource [], used = 6\<rparr>"
  let ?rs = "routing_state\<lparr>rng := rng scenario_final\<rparr>"
  let ?es = "short_start\<lparr>rng := \<lparr>source = ListSource [], used = 0\<rparr>\<rparr>"
  let ?ea = "short_armed\<lparr>rng := \<lparr>source = ListSource [], used = 1\<rparr>\<rparr>"
  have r: "source ?r = ListSource []" by simp
  have x: "source (rng scenario_final) = ListSource []" by (simp add: scenario_final_def)
  have x': "source (rng ?rs) = ListSource []" by (simp add: scenario_final_def)
  have m: "map_of (routing_table ?rs) ''source'' = Some [(''A'', 0.3), (''B'', 1)]"
    by (simp add: routing_state_def)
  have ne: "[(''A'', 0.3::real), (''B'', 1)] \<noteq> []" by simp
  have es: "source (rng ?es) = ListSource []" by simp
  have ef: "first_arrivals (nodes short_start) (resupply [0] ?es) = Inr ?ea"
    by (simp add: short_start_def short_armed_def scenario_node_def resupply_def resupply_rng_def
        sim_defs Let_def)
  have eu: "used (rng ?es) + int (length ([]::real list)) < used (rng ?ea)" by simp
  have ls: "source (rng short_last) = ListSource [0]" and lu: "used (rng short_last) = 5"
    by (simp_all add: short_last_def)
  have lt: "step (resupply [0] short_last) = Inr scenario_final"
    by (simp add: short_last_def scenario_final_def scenario_node_def resupply_def resupply_rng_def
        sim_defs Let_def eval_nat_numeral)
  have fu: "used (rng scenario_final) = 7" by (simp add: scenario_final_def)
  have ll: "used (rng short_last) + int (length [0::real]) < used (rng scenario_final)"
    by (simp add: short_last_def scenario_final_def)
  have ss: "source (rng short_start) = ListSource [0, 0, 0, 0, 0, 0]"
    by (simp add: short_start_def)
  have rs: "resupply [0] short_start = scenario_start"
    by (simp add: short_start_def scenario_start_def resupply_def resupply_rng_def)
  from rs scenario_run_state
  have rr: "run_state 5 (resupply [0] short_start) = Some (Inr scenario_final)" by simp
  have su: "used (rng short_start) + int (length [0::real, 0, 0, 0, 0, 0]) < used (rng scenario_final)"
    by (simp add: short_start_def scenario_final_def)
  have a: "state_after 4 short_armed = Some short_last"
    by (simp add: short_armed_def short_last_def scenario_node_def sim_defs Let_def eval_nat_numeral)
  have b: "loop_cond short_last" by (simp add: short_last_def loop_cond_def)
  have d: "(4::nat) < 5" by simp
  have fa: "first_arrivals (nodes short_start) short_start = Inr short_armed"
    by (simp add: short_start_def short_armed_def scenario_node_def sim_defs Let_def)
  have e: "source (rng scenario_start) = ListSource [0, 0, 0, 0, 0, 0, 0]"
    by (simp add: scenario_start_def)
  note t1 = replay_exhaustion_is_fatal [where r = ?r and s = short_armed and rg = "(1, 1)"
      and nm = "''source''" and xs = "[]" and ns = "[]" and ys = "[]" and t' = short_start
      and fuel = 5 and i = 4 and ?s1.0 = short_last and e = RuntimeError
      and ?s0.0 = short_start and s' = short_start]
  note t2 = replay_exhaustion_is_fatal [where r = ?r
      and s = scenario_start and rg = "(1, 1)" and nm = "''source''"
      and xs = "[0, 0, 0, 0, 0, 0, 0]" and ns = "[]" and ys = "[]" and t' = short_start
      and fuel = 5 and i = 0 and ?s1.0 = short_start and e = RuntimeError
      and ?s0.0 = short_start and s' = scenario_final]
  note t3 = replay_exhaustion_is_fatal [where r = ?r
      and s = scenario_final and rg = "(1, 1)" and nm = "''source''" and xs = "[]"
      and ns = "[]" and ys = "[]" and t' = short_start and fuel = 5 and i = 0
      and ?s1.0 = short_start and e = RuntimeError and ?s0.0 = short_start and s' = short_start]
  note t4 = replay_exhaustion_is_fatal [where r = ?r
      and s = ?rs and rg = "(1, 1)" and nm = "''source''" and xs = "[]" and ns = "[]"
      and ys = "[]" and t' = short_start and fuel = 5 and i = 0 and ?s1.0 = short_start
      and e = RuntimeError and ?s0.0 = short_start and s' = short_start]
  note t5 = replay_exhaustion_is_fatal [where r = ?r
      and s = short_start and rg = "(1, 1)" and nm = "''source''" and xs = "[]" and ns = "[]"
      and ys = "[]" and t' = short_start and fuel = 5 and i = 0 and ?s1.0 = short_start
      and e = RuntimeError and ?s0.0 = short_armed and s' = short_start]
  note t6 = replay_exhaustion_is_fatal [where r = ?r
      and s = ?es and rg = "(1, 1)" and nm = "''source''" and xs = "[]"
      and ns = "nodes short_start" and ys = "[0]" and t' = ?ea and fuel = 5 and i = 0
      and ?s1.0 = short_start and e = RuntimeError and ?s0.0 = short_start and s' = short_start]
  note t7 = replay_exhaustion_is_fatal [where r = ?r
      and s = short_last and rg = "(1, 1)" and nm = "''source''" and xs = "[0]" and ns = "[]"
      and ys = "[0]" and t' = scenario_final and fuel = 5 and i = 0 and ?s1.0 = short_start
      and e = RuntimeError and ?s0.0 = short_start and s' = short_start]
  note t8 = replay_exhaustion_is_fatal [where r = ?r
      and s = short_start and rg = "(1, 1)" and nm = "''source''" and xs = "[0, 0, 0, 0, 0, 0]"
      and ns = "[]" and ys = "[0]" and t' = scenario_final and fuel = 5 and i = 0
      and ?s1.0 = short_start and e = RuntimeError and ?s0.0 = short_start and s' = short_start]
  from t1 r have "rng_u ?r = (Inl RuntimeError, ?r\<lparr>used := used ?r + 1\<rparr>)" by blast
  then have f: "rng_u ?r = (Inl RuntimeError, \<lparr>source = ListSource [], used = 7\<rparr>)" by simp
  from t7 ls lt ll have c: "step short_last = Inl RuntimeError" by blast
  from t1 a b c d have g: "run_loop 5 short_armed = Some (Inl RuntimeError)" by blast
  from t3 x have s3: "sample (1, 1) scenario_final = Inl RuntimeError" by blast
  from t4 x' m ne have s4: "pick_destination ''source'' ?rs = Inl RuntimeError" by blast
  from t6 es ef eu have s6: "first_arrivals (nodes short_start) ?es = Inl RuntimeError" by blast
  from t8 ss rr su have s8: "run 5 short_start = Some (Inl RuntimeError)" by blast
  from t5 fa g have s5: "run 5 short_start = Some (Inl RuntimeError)" by blast
  from t2 e scenario_run_state
  have "used (rng scenario_final) \<le> used (rng scenario_start) + int (length [0::real, 0, 0, 0, 0, 0, 0])"
    by blast
  then have h: "used (rng scenario_final) \<le> used (rng scenario_start) + 7" by simp
  show ?thesis
    apply (intro conjI)
    apply (rule f)
    apply (rule x)
    apply (rule s3)
    apply (rule m)
    apply (rule s4)
    apply (rule es)
    apply (rule ef)
    apply (rule s6)
    apply (rule ls)
    apply (rule lu)
    apply (rule lt)
    apply (rule fu)
    apply (rule c)
    apply (rule ss)
    apply (rule rs)
    apply (rule rr)
    apply (rule s8)
    apply (rule a)
    apply (rule b)
    apply (rule g)
    apply (rule fa)
    apply (rule e)
    apply (rule scenario_run_state)
    apply (rule h)
    done
qed

subsection \<open>Determinism\<close>

lemma event_less_trans: "event_less a b \<Longrightarrow> event_less b c \<Longrightarrow> event_less a c"
  by (auto simp: event_less_def)

lemma event_less_asym: "event_less a b \<Longrightarrow> \<not> event_less b a"
  by (auto simp: event_less_def)

lemma event_less_total: "seq a \<noteq> seq b \<Longrightarrow> event_less a b \<or> event_less b a"
  by (auto simp: event_less_def)

lemma least_event_least:
  assumes "distinct (map seq (m # es))"
  shows "least_event m es \<in> set (m # es) \<and>
         (least_event m es = m \<or> event_less (least_event m es) m) \<and>
         (\<forall>y\<in>set es. y = least_event m es \<or> event_less (least_event m es) y)"
  using assms
proof (induction es arbitrary: m)
  case Nil
  then show ?case by simp
next
  case (Cons e es)
  let ?m = "if event_less e m then e else m"
  let ?r = "least_event ?m es"
  from Cons.prems have ne: "seq e \<noteq> seq m" and d: "distinct (map seq (?m # es))" by auto
  from Cons.IH [OF d] have r1: "?r \<in> set (?m # es)" and r2: "?r = ?m \<or> event_less ?r ?m"
    and r3: "\<forall>y\<in>set es. y = ?r \<or> event_less ?r y" by simp_all
  have a: "?r \<in> set (m # e # es)" using r1 by (auto split: if_splits)
  have b: "?r = m \<or> event_less ?r m"
    using r2 by (auto split: if_splits intro: event_less_trans)
  have c: "e = ?r \<or> event_less ?r e"
  proof (cases "event_less e m")
    case True
    with r2 show ?thesis by auto
  next
    case False
    with ne have "event_less m e" using event_less_total [of e m] by blast
    with False r2 show ?thesis by (auto intro: event_less_trans)
  qed
  from a b c r3 show ?case by simp
qed

lemma heappop_least:
  assumes "heappop evs = Inr (ev, rest)" and "distinct (map seq evs)"
  shows "ev \<in> set evs \<and> (\<forall>y\<in>set evs. y = ev \<or> event_less ev y)"
proof (cases evs)
  case Nil
  with assms(1) show ?thesis by (simp add: heappop_def)
next
  case (Cons e es)
  with assms(1) have ev: "ev = least_event e es" by (auto simp: heappop_def Let_def)
  from assms(2) Cons have "distinct (map seq (e # es))" by simp
  from least_event_least [OF this] ev Cons show ?thesis by auto
qed

lemma heappop_arrangement:
  assumes m: "mset evs' = mset evs" and d: "distinct (map seq evs)"
  shows "map_sum id fst (heappop evs') = map_sum id fst (heappop evs)"
proof (cases evs)
  case Nil
  with m show ?thesis by simp
next
  case (Cons e es)
  with m have "evs' \<noteq> []" by auto
  then obtain e' es' where c': "evs' = e' # es'" by (cases evs') auto
  let ?r = "least_event e es"
  let ?r' = "least_event e' es'"
  have h: "heappop evs = Inr (?r, remove1 ?r evs)" using Cons by (simp add: heappop_def Let_def)
  have h': "heappop evs' = Inr (?r', remove1 ?r' evs')" using c' by (simp add: heappop_def Let_def)
  from m have "mset (map seq evs') = mset (map seq evs)" by simp
  with d have d': "distinct (map seq evs')" by (metis mset_eq_imp_distinct_iff)
  from m have s: "set evs' = set evs" by (rule mset_eq_setD)
  from heappop_least [OF h d] have a: "?r \<in> set evs" and b: "\<forall>y\<in>set evs. y = ?r \<or> event_less ?r y"
    by simp_all
  from heappop_least [OF h' d'] have a': "?r' \<in> set evs'"
    and b': "\<forall>y\<in>set evs'. y = ?r' \<or> event_less ?r' y" by simp_all
  have "?r' = ?r"
  proof (rule ccontr)
    assume n: "?r' \<noteq> ?r"
    from a' s b n have "event_less ?r ?r'" by auto
    moreover from a s b' n have "event_less ?r' ?r" by auto
    ultimately show False using event_less_asym by blast
  qed
  with h h' show ?thesis by simp
qed

lemma seq_inv_schedule: "seq_inv s \<Longrightarrow> seq_inv (schedule t ty nm s)"
  by (auto simp: seq_inv_def list_all_iff)

lemma seq_inv_frame:
  "events s' = events s \<Longrightarrow> seq_counter s' = seq_counter s \<Longrightarrow> seq_inv s' = seq_inv s"
  by (simp add: seq_inv_def)

lemma sample_seq: "sample rg s = Inr (x, s') \<Longrightarrow> seq_inv s \<Longrightarrow> seq_inv s'"
  by (auto simp: seq_inv_def dest!: sample_Inr)

lemma start_service_seq: "start_service fila s = Inr s' \<Longrightarrow> seq_inv s \<Longrightarrow> seq_inv s'"
  by (auto simp: start_service_def split: sum.splits intro: seq_inv_schedule sample_seq)

lemma pick_destination_seq: "pick_destination nm s = Inr (d, s') \<Longrightarrow> seq_inv s \<Longrightarrow> seq_inv s'"
  by (auto simp: seq_inv_def dest!: pick_destination_Inr)

lemma admit_and_start_seq:
  assumes "admit_and_start key s = Inr s'" and "seq_inv s"
  shows "seq_inv s'"
proof -
  from assms(1) obtain fila where f: "map_of (nodes s) key = Some fila"
    by (auto simp: admit_and_start_def split: option.splits)
  let ?s1 = "s\<lparr>nodes := AList.update key (snd (admit fila)) (nodes s)\<rparr>"
  have i: "seq_inv ?s1" using assms(2) by (simp add: seq_inv_def)
  from assms(1) f have "s' = ?s1 \<or> start_service (snd (admit fila)) ?s1 = Inr s'"
    by (auto simp: admit_and_start_def Let_def split: prod.splits if_splits)
  with i show ?thesis by (auto dest: start_service_seq)
qed

lemma route_customer_seq:
  assumes "route_customer nm s = Inr s'" and "seq_inv s"
  shows "seq_inv s'"
proof -
  from assms(1) have "\<exists>d s1. pick_destination nm s = Inr (d, s1) \<and>
      (s' = s1 \<or> (\<exists>dn. admit_and_start dn s1 = Inr s'))"
    by (auto simp: route_customer_def split: sum.splits option.splits if_splits)
  then obtain d s1 where pd: "pick_destination nm s = Inr (d, s1)"
    and r: "s' = s1 \<or> (\<exists>dn. admit_and_start dn s1 = Inr s')"
    by blast
  from r pick_destination_seq [OF pd assms(2)] show ?thesis
    by (auto dest: admit_and_start_seq)
qed

lemma on_arrival_seq:
  assumes "on_arrival key s = Inr s'" and "seq_inv s"
  shows "seq_inv s'"
proof -
  from assms(1) obtain fila where f: "map_of (nodes s) key = Some fila"
    by (auto simp: on_arrival_def split: option.splits)
  let ?s1 = "s\<lparr>total_arrivals_count := total_arrivals_count s + 1\<rparr>"
  have i: "seq_inv ?s1" using assms(2) by (simp add: seq_inv_def)
  show ?thesis
  proof (cases "arrival_sampler fila")
    case None
    with assms(1) f have "admit_and_start key ?s1 = Inr s'" by (simp add: on_arrival_def)
    from admit_and_start_seq [OF this i] show ?thesis .
  next
    case (Some rg)
    with assms(1) f obtain x s2 where sm: "sample rg ?s1 = Inr (x, s2)"
      and a: "admit_and_start key (schedule (sim_time s2 + x) ARRIVAL (name fila) s2) = Inr s'"
      by (auto simp: on_arrival_def split: sum.splits)
    from seq_inv_schedule [OF sample_seq [OF sm i]] admit_and_start_seq [OF a] show ?thesis by blast
  qed
qed

lemma on_departure_seq:
  assumes "on_departure key s = Inr s'" and "seq_inv s"
  shows "seq_inv s'"
proof -
  from assms(1) obtain fila where f: "map_of (nodes s) key = Some fila"
    by (auto simp: on_departure_def split: option.splits)
  let ?f = "finish_service_one fila"
  let ?s1 = "s\<lparr>nodes := AList.update key ?f (nodes s)\<rparr>"
  have i: "seq_inv ?s1" using assms(2) by (simp add: seq_inv_def)
  from assms(1) f have "\<exists>s2. (s2 = ?s1 \<or> start_service ?f ?s1 = Inr s2) \<and>
      route_customer (name ?f) s2 = Inr s'"
    by (auto simp: on_departure_def Let_def split: sum.splits if_splits)
  then obtain s2 where s2: "s2 = ?s1 \<or> start_service ?f ?s1 = Inr s2"
    and r: "route_customer (name ?f) s2 = Inr s'"
    by blast
  from s2 i have "seq_inv s2" by (auto dest: start_service_seq)
  from route_customer_seq [OF r this] show ?thesis .
qed

lemma distinct_map_remove1: "distinct (map f xs) \<Longrightarrow> distinct (map f (remove1 x xs))"
proof (induction xs)
  case Nil
  then show ?case by simp
next
  case (Cons a xs)
  then show ?case using set_remove1_subset [of x xs] by auto
qed

lemma update_time_stats_seq:
  assumes "update_time_stats t s = Inr s'"
  shows "events s' = events s \<and> seq_counter s' = seq_counter s"
  using assms by (auto simp: update_time_stats_def Let_def split: if_splits sum.splits)

lemma step_seq:
  assumes "step s = Inr s'" and "seq_inv s"
  shows "seq_inv s'"
proof -
  from step_Inr [OF assms(1)] obtain ev :: event and rest s1 where
    h: "heappop (events s) = Inr (ev, rest)"
    and u: "update_time_stats (time ev) (s\<lparr>events := rest\<rparr>) = Inr s1"
    and d: "etype ev = ARRIVAL \<and> on_arrival (node_name ev) (s1\<lparr>sim_time := time ev\<rparr>) = Inr s' \<or>
            etype ev = DEPARTURE \<and> on_departure (node_name ev) (s1\<lparr>sim_time := time ev\<rparr>) = Inr s'"
    by blast
  from heappop_Inr [OF h] have rest: "rest = remove1 ev (events s)" by simp
  from assms(2) rest have "seq_inv (s\<lparr>events := rest\<rparr>)"
    by (auto simp: seq_inv_def list_all_iff distinct_map_remove1 dest: notin_set_remove1)
  with update_time_stats_seq [OF u] have "seq_inv (s1\<lparr>sim_time := time ev\<rparr>)"
    by (simp add: seq_inv_def)
  with d show ?thesis by (auto dest: on_arrival_seq on_departure_seq)
qed

lemma state_after_seq: "state_after i s = Some s' \<Longrightarrow> seq_inv s \<Longrightarrow> seq_inv s'"
proof (induction i arbitrary: s)
  case 0
  then show ?case by simp
next
  case (Suc i)
  from Suc.prems(1) obtain s1 where st: "step s = Inr s1" and r: "state_after i s1 = Some s'"
    by (auto split: if_splits sum.splits)
  from Suc.IH [OF r step_seq [OF st Suc.prems(2)]] show ?case .
qed

lemma first_arrivals_seq: "first_arrivals ns s = Inr s' \<Longrightarrow> seq_inv s \<Longrightarrow> seq_inv s'"
proof (induction ns arbitrary: s)
  case Nil
  then show ?case by simp
next
  case (Cons a ns)
  obtain nm nd where a: "a = (nm, nd)" by (cases a)
  show ?case
  proof (cases "arrival_sampler nd")
    case None
    with Cons a show ?thesis by simp
  next
    case (Some rg)
    with Cons.prems(1) a obtain t s1 where sm: "sample rg s = Inr (t, s1)"
      and r: "first_arrivals ns (schedule t ARRIVAL nm s1) = Inr s'"
      by (auto split: sum.splits)
    from Cons.IH [OF r seq_inv_schedule [OF sample_seq [OF sm Cons.prems(2)]]] show ?thesis .
  qed
qed

lemma NetworkSimulator_seq: "NetworkSimulator cfg = Inr s \<Longrightarrow> seq_inv s"
  by (auto simp: NetworkSimulator_def seq_inv_def split: sum.splits)

lemma NetworkSimulator_reads:
  assumes "queues c1 = queues c2" and "network c1 = network c2" and "arrivals c1 = arrivals c2"
    and "SimulationRNG c1 = SimulationRNG c2"
  shows "NetworkSimulator c1 = NetworkSimulator c2"
  unfolding NetworkSimulator_def assms by (rule refl)

lemma same_pending_fields:
  assumes "same_pending s s'"
  shows "rng s' = rng s" "nodes s' = nodes s" "routing_table s' = routing_table s"
    "total_arrivals_target s' = total_arrivals_target s"
    "total_arrivals_count s' = total_arrivals_count s" "sim_time s' = sim_time s"
    "last_update_time s' = last_update_time s" "seq_counter s' = seq_counter s"
    "mset (events s') = mset (events s)"
proof -
  from assms have e: "s' = s\<lparr>events := events s'\<rparr>" and m: "mset (events s') = mset (events s)"
    by (simp_all add: same_pending_def)
  from m show "mset (events s') = mset (events s)" .
  show "rng s' = rng s" by (subst e) simp
  show "nodes s' = nodes s" by (subst e) simp
  show "routing_table s' = routing_table s" by (subst e) simp
  show "total_arrivals_target s' = total_arrivals_target s" by (subst e) simp
  show "total_arrivals_count s' = total_arrivals_count s" by (subst e) simp
  show "sim_time s' = sim_time s" by (subst e) simp
  show "last_update_time s' = last_update_time s" by (subst e) simp
  show "seq_counter s' = seq_counter s" by (subst e) simp
qed

lemma same_pendingI:
  assumes "rng s' = rng s" "nodes s' = nodes s" "routing_table s' = routing_table s"
    "total_arrivals_target s' = total_arrivals_target s"
    "total_arrivals_count s' = total_arrivals_count s" "sim_time s' = sim_time s"
    "last_update_time s' = last_update_time s" "seq_counter s' = seq_counter s"
    "mset (events s') = mset (events s)"
  shows "same_pending s s'"
  using assms by (simp add: same_pending_def)

lemma same_pending_refl: "same_pending s s"
  by (simp add: same_pending_def)

lemma same_pending_events:
  "mset evs = mset (events s) \<Longrightarrow> same_pending s (s\<lparr>events := evs\<rparr>)"
  by (simp add: same_pending_def)

lemma same_pending_update:
  assumes "same_pending s s'"
  shows "same_pending (s\<lparr>rng := r\<rparr>) (s'\<lparr>rng := r\<rparr>)"
    "same_pending (s\<lparr>nodes := ns\<rparr>) (s'\<lparr>nodes := ns\<rparr>)"
    "same_pending (s\<lparr>total_arrivals_count := k\<rparr>) (s'\<lparr>total_arrivals_count := k\<rparr>)"
    "same_pending (s\<lparr>sim_time := t\<rparr>) (s'\<lparr>sim_time := t\<rparr>)"
    "same_pending (s\<lparr>last_update_time := t\<rparr>) (s'\<lparr>last_update_time := t\<rparr>)"
    "same_pending (schedule t ty nm s) (schedule t ty nm s')"
  using same_pending_fields [OF assms] by (auto intro!: same_pendingI)


lemma sample_same:
  assumes "same_pending s s'"
  shows "rel_sum (=) (rel_prod (=) same_pending) (sample rg s) (sample rg s')"
  using same_pending_fields(1) [OF assms] same_pending_update(1) [OF assms]
  by (auto simp: sample_def split: prod.splits sum.splits)

lemma start_service_same:
  assumes "same_pending s s'"
  shows "rel_sum (=) same_pending (start_service fila s) (start_service fila s')"
  using sample_same [OF assms, of "service_sampler fila"]
  by (auto simp: start_service_def same_pending_fields elim!: rel_sum.cases
      intro: same_pending_update)

lemma pick_destination_same:
  assumes "same_pending s s'"
  shows "rel_sum (=) (rel_prod (=) same_pending) (pick_destination nm s) (pick_destination nm s')"
  using same_pending_fields(1,3) [OF assms] same_pending_update(1) [OF assms] assms
  by (auto simp: pick_destination_def split: option.splits prod.splits sum.splits)

lemma admit_and_start_same:
  assumes "same_pending s s'"
  shows "rel_sum (=) same_pending (admit_and_start key s) (admit_and_start key s')"
proof (cases "map_of (nodes s) key")
  case None
  with same_pending_fields(2) [OF assms] show ?thesis by (simp add: admit_and_start_def)
next
  case (Some fila)
  obtain ok fila' where ad: "admit fila = (ok, fila')" by (cases "admit fila")
  let ?ns = "AList.update key fila' (nodes s)"
  have sp: "same_pending (s\<lparr>nodes := ?ns\<rparr>) (s'\<lparr>nodes := ?ns\<rparr>)"
    using assms by (rule same_pending_update)
  from start_service_same [OF sp, of fila'] sp Some ad same_pending_fields(2) [OF assms]
  show ?thesis by (simp add: admit_and_start_def Let_def)
qed

lemma route_customer_same:
  assumes "same_pending s s'"
  shows "rel_sum (=) same_pending (route_customer nm s) (route_customer nm s')"
  using pick_destination_same [OF assms, of nm]
  by (auto simp: route_customer_def elim!: rel_sum.cases intro: admit_and_start_same
      split: option.splits)

lemma on_arrival_same:
  assumes "same_pending s s'"
  shows "rel_sum (=) same_pending (on_arrival key s) (on_arrival key s')"
proof (cases "map_of (nodes s) key")
  case None
  with same_pending_fields(2) [OF assms] show ?thesis by (simp add: on_arrival_def)
next
  case (Some fila)
  let ?s1 = "s\<lparr>total_arrivals_count := total_arrivals_count s + 1\<rparr>"
  let ?s1' = "s'\<lparr>total_arrivals_count := total_arrivals_count s + 1\<rparr>"
  have sp: "same_pending ?s1 ?s1'" using assms by (rule same_pending_update)
  note fl = same_pending_fields(2,5) [OF assms]
  show ?thesis
  proof (cases "arrival_sampler fila")
    case None
    with admit_and_start_same [OF sp, of key] Some fl show ?thesis by (simp add: on_arrival_def)
  next
    case rg: (Some rg)
    from sample_same [OF sp, of rg] show ?thesis
    proof (cases rule: rel_sum.cases)
      case (1 a c)
      with Some rg fl show ?thesis by (simp add: on_arrival_def)
    next
      case (2 b d)
      obtain x t where b: "b = (x, t)" by (cases b)
      obtain x' t' where d: "d = (x', t')" by (cases d)
      from 2(3) b d have x: "x' = x" and tt: "same_pending t t'" by simp_all
      from tt have "same_pending (schedule (sim_time t + x) ARRIVAL (name fila) t)
          (schedule (sim_time t + x) ARRIVAL (name fila) t')" by (rule same_pending_update)
      from admit_and_start_same [OF this, of key] 2(1,2) b d x Some rg fl
        same_pending_fields(6) [OF tt]
      show ?thesis by (simp add: on_arrival_def)
    qed
  qed
qed

lemma on_departure_same:
  assumes "same_pending s s'"
  shows "rel_sum (=) same_pending (on_departure key s) (on_departure key s')"
proof (cases "map_of (nodes s) key")
  case None
  with same_pending_fields(2) [OF assms] show ?thesis by (simp add: on_departure_def)
next
  case (Some fila)
  let ?f = "finish_service_one fila"
  let ?ns = "AList.update key ?f (nodes s)"
  have sp: "same_pending (s\<lparr>nodes := ?ns\<rparr>) (s'\<lparr>nodes := ?ns\<rparr>)"
    using assms by (rule same_pending_update)
  note fl = same_pending_fields(2) [OF assms]
  show ?thesis
  proof (cases "node_n ?f \<ge> node_c ?f")
    case True
    from start_service_same [OF sp, of ?f] show ?thesis
    proof (cases rule: rel_sum.cases)
      case (1 a c)
      with Some True fl show ?thesis by (simp add: on_departure_def Let_def)
    next
      case (2 t t')
      from route_customer_same [OF 2(3), of "name ?f"] 2(1,2) Some True fl
      show ?thesis by (simp add: on_departure_def Let_def)
    qed
  next
    case False
    from route_customer_same [OF sp, of "name ?f"] Some False fl
    show ?thesis by (simp add: on_departure_def Let_def)
  qed
qed

lemma update_time_stats_same:
  assumes "same_pending s s'"
  shows "rel_sum (=) same_pending (update_time_stats t s) (update_time_stats t s')"
proof -
  note fl = same_pending_fields(2,7) [OF assms]
  show ?thesis
  proof (cases "t - last_update_time s > 0")
    case False
    with fl same_pending_update(5) [OF assms, of t] show ?thesis
      by (simp add: update_time_stats_def Let_def)
  next
    case True
    show ?thesis
    proof (cases "add_time_all (t - last_update_time s) (nodes s)")
      case (Inl e)
      with True fl show ?thesis by (simp add: update_time_stats_def Let_def)
    next
      case (Inr ns)
      from assms have "same_pending (s\<lparr>nodes := ns\<rparr>) (s'\<lparr>nodes := ns\<rparr>)"
        by (rule same_pending_update)
      then have "same_pending (s\<lparr>nodes := ns, last_update_time := t\<rparr>)
          (s'\<lparr>nodes := ns, last_update_time := t\<rparr>)" by (rule same_pending_update)
      with Inr True fl show ?thesis by (simp add: update_time_stats_def Let_def)
    qed
  qed
qed

lemma seq_inv_same:
  assumes "same_pending s s'" and "seq_inv s"
  shows "seq_inv s'"
proof -
  note fl = same_pending_fields(8,9) [OF assms(1)]
  from fl(2) have "mset (map seq (events s')) = mset (map seq (events s))" by simp
  with assms(2) have "distinct (map seq (events s'))"
    by (metis mset_eq_imp_distinct_iff seq_inv_def)
  moreover from fl(2) have "set (events s') = set (events s)" by (rule mset_eq_setD)
  ultimately show ?thesis using assms(2) fl(1) by (simp add: seq_inv_def list_all_iff)
qed

lemma heappop_same:
  assumes m: "mset evs' = mset evs" and d: "distinct (map seq evs)" and ne: "evs \<noteq> []"
  shows "\<exists>ev rest rest'. heappop evs = Inr (ev, rest) \<and> heappop evs' = Inr (ev, rest') \<and>
           mset rest' = mset rest"
proof -
  from ne obtain e es where c: "evs = e # es" by (cases evs) auto
  with m have "evs' \<noteq> []" by auto
  then obtain e' es' where c': "evs' = e' # es'" by (cases evs') auto
  let ?r = "least_event e es"
  let ?r' = "least_event e' es'"
  have h: "heappop evs = Inr (?r, remove1 ?r evs)" using c by (simp add: heappop_def Let_def)
  have h': "heappop evs' = Inr (?r', remove1 ?r' evs')" using c' by (simp add: heappop_def Let_def)
  from heappop_arrangement [OF m d] h h' have "?r' = ?r" by simp
  with h h' m show ?thesis by simp
qed

lemma step_same:
  assumes sp: "same_pending s s'" and inv: "seq_inv s" and ne: "events s \<noteq> []"
  shows "rel_sum (=) same_pending (step s) (step s') \<and>
         map_sum id fst (heappop (events s')) = map_sum id fst (heappop (events s))"
proof -
  note fl = same_pending_fields [OF sp]
  from inv have d: "distinct (map seq (events s))" by (simp add: seq_inv_def)
  from heappop_same [OF fl(9) d ne] obtain ev :: event and rest rest' where
    h: "heappop (events s) = Inr (ev, rest)" and h': "heappop (events s') = Inr (ev, rest')"
    and m: "mset rest' = mset rest" by blast
  from sp have e: "s' = s\<lparr>events := events s'\<rparr>" by (simp add: same_pending_def)
  have "s'\<lparr>events := rest'\<rparr> = (s\<lparr>events := rest\<rparr>)\<lparr>events := rest'\<rparr>" by (subst e) simp
  with m have sp1: "same_pending (s\<lparr>events := rest\<rparr>) (s'\<lparr>events := rest'\<rparr>)"
    by (simp add: same_pending_def)
  have "rel_sum (=) same_pending (step s) (step s')"
    using update_time_stats_same [OF sp1, of "time ev"]
  proof (cases rule: rel_sum.cases)
    case (1 a c)
    with h h' show ?thesis by (simp add: step_def)
  next
    case (2 t t')
    from 2(3) have sp2: "same_pending (t\<lparr>sim_time := time ev\<rparr>) (t'\<lparr>sim_time := time ev\<rparr>)"
      by (rule same_pending_update)
    show ?thesis
    proof (cases "etype ev")
      case ARRIVAL
      with on_arrival_same [OF sp2, of "node_name ev"] h h' 2(1,2) show ?thesis
        by (simp add: step_def)
    next
      case DEPARTURE
      with on_departure_same [OF sp2, of "node_name ev"] h h' 2(1,2) show ?thesis
        by (simp add: step_def)
    qed
  qed
  with h h' show ?thesis by simp
qed

lemma loop_cond_same: "same_pending s s' \<Longrightarrow> loop_cond s' = loop_cond s"
proof -
  assume a: "same_pending s s'"
  note fl = same_pending_fields [OF a]
  from fl(9) have "events s' = [] \<longleftrightarrow> events s = []"
    by (metis mset_zero_iff)
  with fl(4,5) show ?thesis by (simp add: loop_cond_def)
qed

lemma final_results_same:
  assumes "same_pending s s'"
  shows "final_results s' = final_results s"
proof -
  have g: "same_pending t t' \<Longrightarrow> get_results t' = get_results t" for t t'
    using same_pending_fields [of t t'] by (simp add: get_results_def)
  from update_time_stats_same [OF assms, of "sim_time s"] same_pending_fields(6) [OF assms]
  show ?thesis by (auto simp: final_results_def elim!: rel_sum.cases dest: g)
qed

lemma arranged_loop_deterministic:
  assumes "arranged_loop s tr r" and "seq_inv s" and "same_pending s s2"
    and "arranged_loop s2 tr2 r2"
  shows "tr2 = tr \<and> r2 = r"
  using assms
proof (induction arbitrary: s2 tr2 r2 rule: arranged_loop.induct)
  case (finished s)
  from finished.hyps loop_cond_same [OF finished.prems(2)] have "\<not> loop_cond s2" by simp
  with finished.prems(3) have "tr2 = [] \<and> r2 = final_results s2"
    by (auto elim: arranged_loop.cases)
  with final_results_same [OF finished.prems(2)] show ?case by simp
next
  case (failed s evs ev rest e)
  from failed.hyps(1) have ne: "events s \<noteq> []" by (simp add: loop_cond_def)
  from failed.hyps(1) loop_cond_same [OF failed.prems(2)] have lc: "loop_cond s2" by simp
  have sp0: "same_pending s (s\<lparr>events := evs\<rparr>)" using failed.hyps(2) by (rule same_pending_events)
  have inv: "seq_inv (s\<lparr>events := evs\<rparr>)" using sp0 failed.prems(1) by (rule seq_inv_same)
  from ne failed.hyps(2) have ne1: "events (s\<lparr>events := evs\<rparr>) \<noteq> []" by auto
  from failed.prems(3) lc obtain evs2 ev2 rest2 where
    m2: "mset evs2 = mset (events s2)" and h2: "heappop evs2 = Inr (ev2, rest2)"
    and c: "(\<exists>e2. step (s2\<lparr>events := evs2\<rparr>) = Inl e2 \<and> tr2 = [ev2] \<and> r2 = Inl e2) \<or>
            (\<exists>t2 tr3. step (s2\<lparr>events := evs2\<rparr>) = Inr t2 \<and> tr2 = ev2 # tr3 \<and> arranged_loop t2 tr3 r2)"
    by (auto elim: arranged_loop.cases)
  note fl = same_pending_fields [OF failed.prems(2)]
  from failed.prems(2) have e2: "s2 = s\<lparr>events := events s2\<rparr>" by (simp add: same_pending_def)
  have "s2\<lparr>events := evs2\<rparr> = (s\<lparr>events := evs\<rparr>)\<lparr>events := evs2\<rparr>" by (subst e2) simp
  with m2 fl(9) failed.hyps(2) have sp: "same_pending (s\<lparr>events := evs\<rparr>) (s2\<lparr>events := evs2\<rparr>)"
    by (simp add: same_pending_def)
  from step_same [OF sp inv ne1] failed.hyps(3,4) h2 have "ev2 = ev"
    and "rel_sum (=) same_pending (Inl e) (step (s2\<lparr>events := evs2\<rparr>))" by simp_all
  with c show ?case by (auto elim: rel_sum.cases)
next
  case (iterated s evs ev rest s' tr r)
  from iterated.hyps(1) have ne: "events s \<noteq> []" by (simp add: loop_cond_def)
  from iterated.hyps(1) loop_cond_same [OF iterated.prems(2)] have lc: "loop_cond s2" by simp
  have sp0: "same_pending s (s\<lparr>events := evs\<rparr>)" using iterated.hyps(2) by (rule same_pending_events)
  have inv: "seq_inv (s\<lparr>events := evs\<rparr>)" using sp0 iterated.prems(1) by (rule seq_inv_same)
  from ne iterated.hyps(2) have ne1: "events (s\<lparr>events := evs\<rparr>) \<noteq> []" by auto
  from iterated.prems(3) lc obtain evs2 ev2 rest2 where
    m2: "mset evs2 = mset (events s2)" and h2: "heappop evs2 = Inr (ev2, rest2)"
    and c: "(\<exists>e2. step (s2\<lparr>events := evs2\<rparr>) = Inl e2 \<and> tr2 = [ev2] \<and> r2 = Inl e2) \<or>
            (\<exists>t2 tr3. step (s2\<lparr>events := evs2\<rparr>) = Inr t2 \<and> tr2 = ev2 # tr3 \<and> arranged_loop t2 tr3 r2)"
    by (auto elim: arranged_loop.cases)
  note fl = same_pending_fields [OF iterated.prems(2)]
  from iterated.prems(2) have e2: "s2 = s\<lparr>events := events s2\<rparr>" by (simp add: same_pending_def)
  have "s2\<lparr>events := evs2\<rparr> = (s\<lparr>events := evs\<rparr>)\<lparr>events := evs2\<rparr>" by (subst e2) simp
  with m2 fl(9) iterated.hyps(2) have sp: "same_pending (s\<lparr>events := evs\<rparr>) (s2\<lparr>events := evs2\<rparr>)"
    by (simp add: same_pending_def)
  from step_same [OF sp inv ne1] iterated.hyps(3,4) h2 have ev: "ev2 = ev"
    and rel: "rel_sum (=) same_pending (Inr s') (step (s2\<lparr>events := evs2\<rparr>))" by simp_all
  from rel c obtain t2 tr3 where st2: "step (s2\<lparr>events := evs2\<rparr>) = Inr t2"
    and tr2: "tr2 = ev2 # tr3" and al: "arranged_loop t2 tr3 r2" and sp': "same_pending s' t2"
    by (auto elim: rel_sum.cases)
  from step_seq [OF iterated.hyps(4) inv] have inv': "seq_inv s'" .
  from iterated.IH [OF inv' sp' al] tr2 ev show ?case by simp
qed

lemma arranged_run_deterministic:
  assumes "arranged_run cfg tr r" and "arranged_run cfg tr2 r2"
  shows "tr2 = tr \<and> r2 = r"
proof (cases "NetworkSimulator cfg")
  case (Inl e)
  with assms show ?thesis by (simp add: arranged_run_def)
next
  case (Inr s)
  show ?thesis
  proof (cases "first_arrivals (nodes s) s")
    case (Inl e)
    with Inr assms show ?thesis by (simp add: arranged_run_def)
  next
    case s0: (Inr s0)
    from first_arrivals_seq [OF s0 NetworkSimulator_seq [OF Inr]] have inv: "seq_inv s0" .
    from assms Inr s0 have "arranged_loop s0 tr r" and "arranged_loop s0 tr2 r2"
      by (simp_all add: arranged_run_def)
    from arranged_loop_deterministic [OF this(1) inv same_pending_refl this(2)] show ?thesis .
  qed
qed

lemma run_loop_arranged:
  "run_loop fuel s = Some res \<Longrightarrow>
   arranged_loop s (popped fuel s) (case res of Inl e \<Rightarrow> Inl e | Inr s' \<Rightarrow> final_results s')"
proof (induction fuel arbitrary: s)
  case 0
  then have "\<not> loop_cond s" and "res = Inr s" by (auto split: if_splits)
  then show ?case by (simp add: arranged_loop.finished)
next
  case (Suc fuel)
  show ?case
  proof (cases "loop_cond s")
    case False
    with Suc.prems have "res = Inr s" by simp
    with False show ?thesis by (simp add: arranged_loop.finished)
  next
    case True
    then have "events s \<noteq> []" by (simp add: loop_cond_def)
    then obtain ev :: event and rest where h: "heappop (events s) = Inr (ev, rest)"
      by (cases "events s") (auto simp: heappop_def Let_def)
    have id: "s\<lparr>events := events s\<rparr> = s" by simp
    show ?thesis
    proof (cases "step s")
      case (Inl e)
      with True Suc.prems have "res = Inl e" by simp
      moreover have "arranged_loop s [ev] (Inl e)"
        by (rule arranged_loop.failed [where evs = "events s", OF True _ h]) (simp_all add: Inl)
      ultimately show ?thesis using True h Inl by simp
    next
      case (Inr s')
      with True Suc.prems have "run_loop fuel s' = Some res" by simp
      from Suc.IH [OF this] have "arranged_loop s (ev # popped fuel s')
          (case res of Inl e \<Rightarrow> Inl e | Inr s' \<Rightarrow> final_results s')"
        by (rule arranged_loop.iterated [where evs = "events s", OF True _ h, rotated 2])
          (simp_all add: Inr)
      with True h Inr show ?thesis by simp
    qed
  qed
qed

lemma simulate_arranged:
  assumes "simulate fuel cfg = Some r"
  shows "arranged_run cfg (event_sequence fuel cfg) r"
proof (cases "NetworkSimulator cfg")
  case (Inl e)
  with assms show ?thesis by (simp add: arranged_run_def simulate_def event_sequence_def)
next
  case (Inr s)
  show ?thesis
  proof (cases "first_arrivals (nodes s) s")
    case (Inl e)
    with Inr assms show ?thesis
      by (simp add: arranged_run_def simulate_def event_sequence_def run_def run_state_def)
  next
    case s0: (Inr s0)
    with Inr assms obtain res where l: "run_loop fuel s0 = Some res"
      and r: "r = (case res of Inl e \<Rightarrow> Inl e | Inr s' \<Rightarrow> final_results s')"
      by (auto simp: simulate_def run_def run_state_def final_results_def
          split: option.splits sum.splits)
    from run_loop_arranged [OF l] r Inr s0 show ?thesis
      by (simp add: arranged_run_def event_sequence_def)
  qed
qed

lemma run_loop_same:
  "same_pending s s' \<Longrightarrow> seq_inv s \<Longrightarrow>
   popped fuel s' = popped fuel s \<and>
   map_option loop_results (run_loop fuel s') = map_option loop_results (run_loop fuel s)"
proof (induction fuel arbitrary: s s')
  case 0
  from loop_cond_same [OF 0(1)] final_results_same [OF 0(1)] show ?case
    by (simp add: loop_results_def)
next
  case (Suc fuel)
  note lc = loop_cond_same [OF Suc.prems(1)]
  show ?case
  proof (cases "loop_cond s")
    case False
    with lc final_results_same [OF Suc.prems(1)] show ?thesis by (simp add: loop_results_def)
  next
    case True
    then have ne: "events s \<noteq> []" by (simp add: loop_cond_def)
    from step_same [OF Suc.prems ne] have rel: "rel_sum (=) same_pending (step s) (step s')"
      and h: "map_sum id fst (heappop (events s')) = map_sum id fst (heappop (events s))"
      by simp_all
    from ne obtain ev :: event and rest where p: "heappop (events s) = Inr (ev, rest)"
      by (cases "events s") (auto simp: heappop_def Let_def)
    with h obtain rest' where p': "heappop (events s') = Inr (ev, rest')"
      by (cases "heappop (events s')") auto
    from rel show ?thesis
    proof (cases rule: rel_sum.cases)
      case (1 a c)
      with True lc p p' show ?thesis by (simp add: loop_results_def)
    next
      case (2 t t')
      from step_seq [OF 2(1) Suc.prems(2)] have "seq_inv t" .
      from Suc.IH [OF 2(3) this] 2(1,2) True lc p p' show ?thesis by simp
    qed
  qed
qed

lemma run_loop_arranged_results:
  "run_loop fuel s = Some res \<Longrightarrow> arranged_loop s (popped fuel s) (loop_results res)"
  by (simp add: loop_results_def run_loop_arranged)

text \<open>
  Claim C7. Two runs whose configurations agree on the queues, the routing rules, the
  arrival targets and the deviate source they select (the seed or the replay sequence)
  pop the same events in the same order and return the same final statistics (served and
  loss counts, time-in-state vectors, global end time and deviates consumed) or fail with
  the same error, however the heap of either run arranges the pending events before each
  pop. The run that \<open>simulate\<close> computes is one of them, so each of them pops
  \<open>event_sequence\<close> and returns what \<open>simulate\<close> returns. The reason is the
  scheduler: the sequence numbers of the pending events are pairwise distinct in every
  reachable state, so the least event under the order on \<open>(time, seq, etype)\<close> is the
  same for every arrangement; the rest of a run from a reachable state whose pending events
  are arranged in another way pops the same events and gives the same results. The
  generator is a function of its state, which each iteration hands to the next.
\<close>

theorem runs_are_deterministic:
  "(queues c1 = queues c2 \<and> network c1 = network c2 \<and> arrivals c1 = arrivals c2 \<and>
    SimulationRNG c1 = SimulationRNG c2 \<and> arranged_run c1 tr r \<and> arranged_run c2 tr' r' \<longrightarrow>
      tr' = tr \<and> r' = r) \<and>
   (simulate fuel cfg = Some res \<longrightarrow> arranged_run cfg (event_sequence fuel cfg) res) \<and>
   (NetworkSimulator cfg = Inr s0 \<and> first_arrivals (nodes s0) s0 = Inr s1 \<and>
    state_after i s1 = Some s \<and> mset evs = mset (events s) \<longrightarrow>
      distinct (map seq (events s)) \<and>
      popped fuel (s\<lparr>events := evs\<rparr>) = popped fuel s \<and>
      map_option loop_results (run_loop fuel (s\<lparr>events := evs\<rparr>)) =
        map_option loop_results (run_loop fuel s))"
proof -
  have a: "queues c1 = queues c2 \<and> network c1 = network c2 \<and> arrivals c1 = arrivals c2 \<and>
    SimulationRNG c1 = SimulationRNG c2 \<and> arranged_run c1 tr r \<and> arranged_run c2 tr' r' \<longrightarrow>
      tr' = tr \<and> r' = r"
  proof
    assume h: "queues c1 = queues c2 \<and> network c1 = network c2 \<and> arrivals c1 = arrivals c2 \<and>
      SimulationRNG c1 = SimulationRNG c2 \<and> arranged_run c1 tr r \<and> arranged_run c2 tr' r'"
    then have "NetworkSimulator c1 = NetworkSimulator c2" by (intro NetworkSimulator_reads) simp_all
    then have "arranged_run c1 tr' r' = arranged_run c2 tr' r'" by (simp add: arranged_run_def)
    with h have "arranged_run c1 tr r" and "arranged_run c1 tr' r'" by simp_all
    then show "tr' = tr \<and> r' = r" by (rule arranged_run_deterministic)
  qed
  have b: "simulate fuel cfg = Some res \<longrightarrow> arranged_run cfg (event_sequence fuel cfg) res"
    by (simp add: simulate_arranged)
  have c: "NetworkSimulator cfg = Inr s0 \<and> first_arrivals (nodes s0) s0 = Inr s1 \<and>
    state_after i s1 = Some s \<and> mset evs = mset (events s) \<longrightarrow>
      distinct (map seq (events s)) \<and>
      popped fuel (s\<lparr>events := evs\<rparr>) = popped fuel s \<and>
      map_option loop_results (run_loop fuel (s\<lparr>events := evs\<rparr>)) =
        map_option loop_results (run_loop fuel s)"
  proof
    assume h: "NetworkSimulator cfg = Inr s0 \<and> first_arrivals (nodes s0) s0 = Inr s1 \<and>
      state_after i s1 = Some s \<and> mset evs = mset (events s)"
    then have inv: "seq_inv s"
      using NetworkSimulator_seq first_arrivals_seq state_after_seq by blast
    then have d: "distinct (map seq (events s))" by (simp add: seq_inv_def)
    from h have "same_pending s (s\<lparr>events := evs\<rparr>)" by (simp add: same_pending_events)
    from run_loop_same [OF this inv, of fuel] d
    show "distinct (map seq (events s)) \<and>
      popped fuel (s\<lparr>events := evs\<rparr>) = popped fuel s \<and>
      map_option loop_results (run_loop fuel (s\<lparr>events := evs\<rparr>)) =
        map_option loop_results (run_loop fuel s)" by simp
  qed
  from a b c show ?thesis by (intro conjI)
qed

theorem runs_are_deterministic_witness:
  "queues (scenario [0, 0, 0, 0, 0, 0, 0]) = queues seeded_scenario \<and>
   network (scenario [0, 0, 0, 0, 0, 0, 0]) = network seeded_scenario \<and>
   arrivals (scenario [0, 0, 0, 0, 0, 0, 0]) = arrivals seeded_scenario \<and>
   SimulationRNG (scenario [0, 0, 0, 0, 0, 0, 0]) = SimulationRNG seeded_scenario \<and>
   simulate 5 (scenario [0, 0, 0, 0, 0, 0, 0]) = Some (Inr scenario_results) \<and>
   event_sequence 5 (scenario [0, 0, 0, 0, 0, 0, 0]) = scenario_events \<and>
   simulate 7 seeded_scenario = Some (Inr scenario_results) \<and>
   arranged_run (scenario [0, 0, 0, 0, 0, 0, 0]) scenario_events (Inr scenario_results) \<and>
   arranged_run seeded_scenario (event_sequence 7 seeded_scenario) (Inr scenario_results) \<and>
   event_sequence 7 seeded_scenario = scenario_events \<and>
   mset (rev (events scenario_mid)) = mset (events scenario_mid) \<and>
   rev (events scenario_mid) \<noteq> events scenario_mid \<and>
   distinct (map seq (events scenario_mid)) \<and>
   popped 2 (scenario_mid\<lparr>events := rev (events scenario_mid)\<rparr>) =
     [\<lparr>time = 5 / 2, seq = 5, etype = DEPARTURE, node_name = ''Q1''\<rparr>,
      \<lparr>time = 3, seq = 4, etype = ARRIVAL, node_name = ''Q1''\<rparr>] \<and>
   map_option loop_results (run_loop 2 (scenario_mid\<lparr>events := rev (events scenario_mid)\<rparr>)) =
     Some (Inr scenario_results)"
proof -
  let ?c = "scenario [0, 0, 0, 0, 0, 0, 0]"
  have q: "queues ?c = queues seeded_scenario" and n: "network ?c = network seeded_scenario"
    and a: "arrivals ?c = arrivals seeded_scenario"
    by (simp_all add: seeded_scenario_def)
  have r: "SimulationRNG ?c = SimulationRNG seeded_scenario"
    by (simp add: seeded_scenario_def SimulationRNG_def scenario_def)
  have s: "simulate 5 ?c = Some (Inr scenario_results)"
    by (simp add: scenario_results_def scenario_fila_def scenario_def sim_defs eval_nat_numeral)
  have e: "event_sequence 5 ?c = scenario_events"
    by (simp add: event_sequence_def scenario_events_def scenario_def sim_defs eval_nat_numeral)
  have s7: "simulate 7 seeded_scenario = Some (Inr scenario_results)"
    by (simp add: seeded_scenario_def scenario_results_def scenario_fila_def scenario_def sim_defs
        eval_nat_numeral)
  have m: "mset (rev (events scenario_mid)) = mset (events scenario_mid)" by simp
  have ne: "rev (events scenario_mid) \<noteq> events scenario_mid" by (simp add: scenario_mid_def)
  have p: "popped 2 scenario_mid =
     [\<lparr>time = 5 / 2, seq = 5, etype = DEPARTURE, node_name = ''Q1''\<rparr>,
      \<lparr>time = 3, seq = 4, etype = ARRIVAL, node_name = ''Q1''\<rparr>]"
    by (simp add: scenario_mid_def scenario_node_def sim_defs Let_def eval_nat_numeral)
  have l: "map_option loop_results (run_loop 2 scenario_mid) = Some (Inr scenario_results)"
    by (simp add: scenario_mid_def scenario_node_def scenario_results_def scenario_fila_def
        loop_results_def final_results_def sim_defs Let_def eval_nat_numeral)
  note t1 = runs_are_deterministic [where ?c1.0 = ?c and ?c2.0 = seeded_scenario
      and tr = scenario_events and r = "Inr scenario_results"
      and tr' = "event_sequence 7 seeded_scenario" and r' = "Inr scenario_results"
      and cfg = ?c and fuel = 5 and res = "Inr scenario_results"
      and ?s0.0 = scenario_start and ?s1.0 = scenario_armed and i = 3 and s = scenario_mid
      and evs = "rev (events scenario_mid)"]
  note t2 = runs_are_deterministic [where ?c1.0 = ?c and ?c2.0 = seeded_scenario
      and tr = scenario_events and r = "Inr scenario_results"
      and tr' = "event_sequence 7 seeded_scenario" and r' = "Inr scenario_results"
      and cfg = seeded_scenario and fuel = 7 and res = "Inr scenario_results"
      and ?s0.0 = scenario_start and ?s1.0 = scenario_armed and i = 3 and s = scenario_mid
      and evs = "rev (events scenario_mid)"]
  note t3 = runs_are_deterministic [where ?c1.0 = ?c and ?c2.0 = seeded_scenario
      and tr = scenario_events and r = "Inr scenario_results"
      and tr' = "event_sequence 7 seeded_scenario" and r' = "Inr scenario_results"
      and cfg = ?c and fuel = 2 and res = "Inr scenario_results"
      and ?s0.0 = scenario_start and ?s1.0 = scenario_armed and i = 3 and s = scenario_mid
      and evs = "rev (events scenario_mid)"]
  from t1 s have "arranged_run ?c (event_sequence 5 ?c) (Inr scenario_results)" by blast
  with e have r1: "arranged_run ?c scenario_events (Inr scenario_results)" by simp
  from t2 s7 have r2: "arranged_run seeded_scenario (event_sequence 7 seeded_scenario)
      (Inr scenario_results)" by blast
  from t1 q n a r r1 r2 have e7: "event_sequence 7 seeded_scenario = scenario_events" by blast
  from t3 scenario_start_constructed scenario_first_arrivals scenario_after_three m
  have d: "distinct (map seq (events scenario_mid))"
    and p': "popped 2 (scenario_mid\<lparr>events := rev (events scenario_mid)\<rparr>) = popped 2 scenario_mid"
    and l': "map_option loop_results (run_loop 2 (scenario_mid\<lparr>events := rev (events scenario_mid)\<rparr>)) =
        map_option loop_results (run_loop 2 scenario_mid)" by blast+
  from p p' have p2: "popped 2 (scenario_mid\<lparr>events := rev (events scenario_mid)\<rparr>) =
     [\<lparr>time = 5 / 2, seq = 5, etype = DEPARTURE, node_name = ''Q1''\<rparr>,
      \<lparr>time = 3, seq = 4, etype = ARRIVAL, node_name = ''Q1''\<rparr>]" by simp
  from l l' have l2: "map_option loop_results
      (run_loop 2 (scenario_mid\<lparr>events := rev (events scenario_mid)\<rparr>)) =
     Some (Inr scenario_results)" by simp
  show ?thesis
    apply (intro conjI)
    apply (rule q)
    apply (rule n)
    apply (rule a)
    apply (rule r)
    apply (rule s)
    apply (rule e)
    apply (rule s7)
    apply (rule r1)
    apply (rule r2)
    apply (rule e7)
    apply (rule m)
    apply (rule ne)
    apply (rule d)
    apply (rule p2)
    apply (rule l2)
    done
qed

end
